theory Spec2Isabelle
  imports Main "HOL-Library.Char_ord" "HOL-Library.List_Lexorder" "HOL-Library.Sublist"
    "HOL-Library.Monad_Syntax" "HOL-Library.Multiset"
begin

section \<open>Diagram documents and change-sets\<close>

text \<open>
  \<open>DiagramAgent._apply_changes\<close> works on parsed JSON. A JSON value is modelled by
  \<open>jval\<close>; a JSON object (a Python \<open>dict\<close> with string keys) is a list of key/value
  pairs in insertion order. Python's \<open>d.get(k)\<close> returns \<open>None\<close> both for an absent key
  and for a key holding \<open>null\<close>, so \<open>dict_get\<close> returns \<open>JNull\<close> in both cases.
  The numbers are the integers.
\<close>

datatype jval =
    JNull
  | JBool bool
  | JNum int
  | JStr string
  | JArr "jval list"
  | JObj "(string \<times> jval) list"

type_synonym entity = "(string \<times> jval) list"

definition dict_get :: "entity \<Rightarrow> string \<Rightarrow> jval" where
  "dict_get e k = (case map_of e k of None \<Rightarrow> JNull | Some v \<Rightarrow> v)"

subsection \<open>Python's equality, hashing and sets on parsed JSON\<close>

text \<open>
  The merge compares values with \<open>==\<close> and looks names up in Python sets. On parsed
  JSON, \<open>==\<close> reads \<open>True\<close> and \<open>False\<close> as the integers \<open>1\<close> and \<open>0\<close>, compares lists
  element by element and dicts as unordered key/value maps, and holds between values of
  different kinds in no other case. \<open>py_norm\<close> brings a value to a normal form for this
  equality: booleans become integers, the entries of a dict are put in key order (one
  entry for each key, the one \<open>dict_get\<close> finds). Two values are \<open>==\<close> exactly when
  their normal forms are the same.
\<close>

definition canon :: "(string \<times> 'v) list \<Rightarrow> (string \<times> 'v) list" where
  "canon kvs =
     List.map_filter (\<lambda>k. map_option (Pair k) (map_of kvs k)) (sort (remdups (map fst kvs)))"

primrec py_norm :: "jval \<Rightarrow> jval" where
  "py_norm JNull = JNull"
| "py_norm (JBool b) = JNum (if b then 1 else 0)"
| "py_norm (JNum n) = JNum n"
| "py_norm (JStr s) = JStr s"
| "py_norm (JArr xs) = JArr (map py_norm xs)"
| "py_norm (JObj kvs) = JObj (canon (map (map_prod id py_norm) kvs))"

definition py_eq :: "jval \<Rightarrow> jval \<Rightarrow> bool" where
  "py_eq a b \<longleftrightarrow> py_norm a = py_norm b"

text \<open>
  \<open>hash(v)\<close> raises \<open>TypeError\<close> for a list and for a dict, and returns for every other
  JSON value. The only exception the merge can raise on parsed JSON of the shape below is
  this \<open>TypeError\<close>; a computation that may raise it returns \<open>Inl TypeError\<close>.
\<close>

datatype error = TypeError

type_synonym 'a result = "error + 'a"

definition and_then :: "'a result \<Rightarrow> ('a \<Rightarrow> 'b result) \<Rightarrow> 'b result" where
  "and_then r f = (case r of Inl e \<Rightarrow> Inl e | Inr x \<Rightarrow> f x)"

definition hashable :: "jval \<Rightarrow> bool" where
  "hashable v = (case v of JArr _ \<Rightarrow> False | JObj _ \<Rightarrow> False | _ \<Rightarrow> True)"

text \<open>
  A Python set of JSON values is kept as the list of its elements. \<open>set(xs)\<close> and a set
  comprehension hash every element; \<open>x in s\<close> hashes \<open>x\<close> and then looks for an element
  equal to it (equal values have equal hashes).
\<close>

definition py_set :: "jval list \<Rightarrow> jval list result" where
  "py_set xs = (if list_all hashable xs then Inr xs else Inl TypeError)"

definition py_in :: "jval \<Rightarrow> jval list \<Rightarrow> bool result" where
  "py_in x s = (if hashable x then Inr (list_ex (py_eq x) s) else Inl TypeError)"

text \<open>
  The change object the edit prompt asks for:
  \<open>{"changes": {"classes": {"add": [...], "remove": [...]}, "actors": ..., "useCases": ...,
  "relationships": {"add": [...], "remove": [...]}}}\<close>. Every key is optional in the code
  (\<open>if "remove" in class_changes\<close> and so on), hence the \<open>option\<close> fields.
\<close>

record entity_changes =
  ent_remove :: "jval list option"
  ent_add :: "entity list option"

record rel_changes =
  rel_remove :: "entity list option"
  rel_add :: "entity list option"

record change_data =
  ch_classes :: "entity_changes option"
  ch_actors :: "entity_changes option"
  ch_useCases :: "entity_changes option"
  ch_relationships :: "rel_changes option"

record changeset =
  changes :: "change_data option"

text \<open>
  The diagram document: the four keys the merge reads or writes, each present or absent,
  and the remaining keys (\<open>diagramType\<close>, \<open>diagramName\<close>, ...) which it never touches.
\<close>

record diagram =
  classes :: "entity list option"
  actors :: "entity list option"
  useCases :: "entity list option"
  relationships :: "entity list option"
  other_keys :: "(string \<times> jval) list"

subsection \<open>Entities identified by name: classes, actors, use cases\<close>

text \<open>\<open>cls.get("name")\<close>\<close>

definition name_of :: "entity \<Rightarrow> jval" where
  "name_of e = dict_get e ''name''"

text \<open>
  \<open>[cls for cls in modified["classes"] if cls.get("name") not in classes_to_remove]\<close>,
  where \<open>classes_to_remove\<close> is a set.
\<close>

fun remove_named :: "jval list \<Rightarrow> entity list \<Rightarrow> entity list result" where
  "remove_named classes_to_remove [] = Inr []"
| "remove_named classes_to_remove (cls # rest) =
     and_then (py_in (name_of cls) classes_to_remove) (\<lambda>found.
     and_then (remove_named classes_to_remove rest) (\<lambda>kept.
       Inr (if \<not> found then cls # kept else kept)))"

text \<open>
  The add loop: \<open>existing_names = {cls.get("name") for cls in modified["classes"]}\<close> is
  recomputed from the array before every candidate.
\<close>

definition existing_names :: "entity list \<Rightarrow> jval list result" where
  "existing_names xs = py_set (map name_of xs)"

fun add_named :: "entity list \<Rightarrow> entity list \<Rightarrow> entity list result" where
  "add_named xs [] = Inr xs"
| "add_named xs (new # rest) =
     and_then (existing_names xs) (\<lambda>names.
     and_then (py_in (name_of new) names) (\<lambda>found.
       if \<not> found then add_named (xs @ [new]) rest else add_named xs rest))"

text \<open>
  One category block of \<open>_apply_changes\<close>; the blocks for \<open>classes\<close>, \<open>actors\<close> and
  \<open>useCases\<close> are the same code on a different key. The argument is the value under
  that key in \<open>modified\<close> (\<open>None\<close>: key absent), the result the value afterwards.
  \<open>set(class_changes["remove"])\<close> is built before the key is looked up in \<open>modified\<close>.
\<close>

definition entity_remove :: "entity_changes \<Rightarrow> entity list option \<Rightarrow> entity list option result" where
  "entity_remove ec cur =
     (case ent_remove ec of
        None \<Rightarrow> Inr cur
      | Some to_remove \<Rightarrow>
          and_then (py_set to_remove) (\<lambda>classes_to_remove.
            case cur of
              None \<Rightarrow> Inr None
            | Some xs \<Rightarrow> and_then (remove_named classes_to_remove xs) (\<lambda>kept. Inr (Some kept))))"

definition entity_add :: "entity_changes \<Rightarrow> entity list option \<Rightarrow> entity list option result" where
  "entity_add ec cur =
     (case ent_add ec of
        None \<Rightarrow> Inr cur
      | Some new \<Rightarrow>
          and_then (add_named (case cur of None \<Rightarrow> [] | Some xs \<Rightarrow> xs) new) (\<lambda>ys. Inr (Some ys)))"

definition apply_entity_changes :: "entity_changes \<Rightarrow> entity list option \<Rightarrow> entity list option result" where
  "apply_entity_changes ec cur = and_then (entity_remove ec cur) (entity_add ec)"

subsection \<open>Relationships\<close>

text \<open>
  Removal keeps \<open>rel\<close> unless its \<open>fromClass\<close>/\<open>toClass\<close>/\<open>type\<close> or its
  \<open>from\<close>/\<open>to\<close>/\<open>type\<close> equal the criterion's \<open>from\<close>/\<open>to\<close>/\<open>type\<close>.
\<close>

definition removal_hits :: "entity \<Rightarrow> entity \<Rightarrow> bool" where
  "removal_hits rel_to_remove rel \<longleftrightarrow>
     (py_eq (dict_get rel ''fromClass'') (dict_get rel_to_remove ''from'') \<and>
      py_eq (dict_get rel ''toClass'') (dict_get rel_to_remove ''to'') \<and>
      py_eq (dict_get rel ''type'') (dict_get rel_to_remove ''type''))
     \<or>
     (py_eq (dict_get rel ''from'') (dict_get rel_to_remove ''from'') \<and>
      py_eq (dict_get rel ''to'') (dict_get rel_to_remove ''to'') \<and>
      py_eq (dict_get rel ''type'') (dict_get rel_to_remove ''type''))"

fun remove_rels :: "entity list \<Rightarrow> entity list \<Rightarrow> entity list" where
  "remove_rels rels [] = rels"
| "remove_rels rels (rel_to_remove # rest) =
     remove_rels (filter (\<lambda>rel. \<not> removal_hits rel_to_remove rel) rels) rest"

text \<open>
  The duplicate test of the add loop compares like-named fields only. The comparisons
  are \<open>==\<close> on the results of \<open>get\<close>, so a field absent on both sides compares equal
  (\<open>None == None\<close>).
\<close>

definition same_rel :: "entity \<Rightarrow> entity \<Rightarrow> bool" where
  "same_rel new_rel rel \<longleftrightarrow>
     (py_eq (dict_get rel ''fromClass'') (dict_get new_rel ''fromClass'') \<and>
      py_eq (dict_get rel ''toClass'') (dict_get new_rel ''toClass'') \<and>
      py_eq (dict_get rel ''type'') (dict_get new_rel ''type''))
     \<or>
     (py_eq (dict_get rel ''from'') (dict_get new_rel ''from'') \<and>
      py_eq (dict_get rel ''to'') (dict_get new_rel ''to'') \<and>
      py_eq (dict_get rel ''type'') (dict_get new_rel ''type''))"

definition rel_exists :: "entity \<Rightarrow> entity list \<Rightarrow> bool" where
  "rel_exists new_rel rels = list_ex (same_rel new_rel) rels"

fun add_rels :: "entity list \<Rightarrow> entity list \<Rightarrow> entity list" where
  "add_rels rels [] = rels"
| "add_rels rels (new_rel # rest) =
     (if \<not> rel_exists new_rel rels
      then add_rels (rels @ [new_rel]) rest
      else add_rels rels rest)"

definition apply_rel_changes :: "rel_changes \<Rightarrow> entity list option \<Rightarrow> entity list option" where
  "apply_rel_changes rc cur =
     (let removed =
            (case rel_remove rc of
               None \<Rightarrow> cur
             | Some crits \<Rightarrow>
                 (case cur of None \<Rightarrow> None | Some rels \<Rightarrow> Some (remove_rels rels crits)))
      in case rel_add rc of
           None \<Rightarrow> removed
         | Some new \<Rightarrow>
             Some (add_rels (case removed of None \<Rightarrow> [] | Some rels \<Rightarrow> rels) new))"

subsection \<open>The merge, by value\<close>

text \<open>
  \<open>_apply_changes\<close> as a function from the current document and the change object to
  the returned document, or to the exception it raises. (What the call does to the
  objects it shares with its argument is the subject of the store model further down.)
\<close>

definition apply_changes :: "diagram \<Rightarrow> changeset \<Rightarrow> diagram result" where
  "apply_changes current_diagram chs =
     (case changes chs of
        None \<Rightarrow> Inr current_diagram
      | Some cd \<Rightarrow>
          and_then (case ch_classes cd of
                      None \<Rightarrow> Inr current_diagram
                    | Some ec \<Rightarrow>
                        and_then (apply_entity_changes ec (classes current_diagram))
                          (\<lambda>v. Inr (current_diagram\<lparr>classes := v\<rparr>))) (\<lambda>m1.
          and_then (case ch_actors cd of
                      None \<Rightarrow> Inr m1
                    | Some ec \<Rightarrow>
                        and_then (apply_entity_changes ec (actors m1))
                          (\<lambda>v. Inr (m1\<lparr>actors := v\<rparr>))) (\<lambda>m2.
          and_then (case ch_useCases cd of
                      None \<Rightarrow> Inr m2
                    | Some ec \<Rightarrow>
                        and_then (apply_entity_changes ec (useCases m2))
                          (\<lambda>v. Inr (m2\<lparr>useCases := v\<rparr>))) (\<lambda>m3.
          Inr (case ch_relationships cd of
                 None \<Rightarrow> m3
               | Some rc \<Rightarrow> m3\<lparr>relationships :=
                   apply_rel_changes rc (relationships m3)\<rparr>)))))"

subsection \<open>Vocabulary for the statements\<close>

text \<open>
  The three name-keyed categories, so that a statement can be made once for all of them.
\<close>

datatype category = Classes | Actors | UseCases

fun doc_cat :: "category \<Rightarrow> diagram \<Rightarrow> entity list option" where
  "doc_cat Classes d = classes d"
| "doc_cat Actors d = actors d"
| "doc_cat UseCases d = useCases d"

fun ch_cat :: "category \<Rightarrow> change_data \<Rightarrow> entity_changes option" where
  "ch_cat Classes cd = ch_classes cd"
| "ch_cat Actors cd = ch_actors cd"
| "ch_cat UseCases cd = ch_useCases cd"

text \<open>
  The name of an entity up to Python's equality: two entities have \<open>==\<close> names exactly
  when their \<open>name_key\<close>s are the same.
\<close>

definition name_key :: "entity \<Rightarrow> jval" where
  "name_key e = py_norm (name_of e)"

text \<open>
  The array the add loop starts from when the removal step returns: the elements of the
  current array whose name equals no entry of the remove list (\<open>[]\<close> when the key is
  absent).
\<close>

definition filtered_base :: "entity_changes \<Rightarrow> entity list option \<Rightarrow> entity list" where
  "filtered_base ec cur =
     (case cur of
        None \<Rightarrow> []
      | Some xs \<Rightarrow>
          (case ent_remove ec of
             None \<Rightarrow> xs
           | Some r \<Rightarrow> filter (\<lambda>e. \<not> list_ex (py_eq (name_of e)) r) xs))"

text \<open>
  A condition under which no \<open>hash\<close> raises: in every name-keyed category the change-set
  touches, every name in the document's array, every entry of the remove list and every
  name in the add list is a hashable value (a string, a number, a boolean or \<open>null\<close>).
\<close>

definition names_hashable :: "entity list \<Rightarrow> bool" where
  "names_hashable xs = list_all (\<lambda>e. hashable (name_of e)) xs"

definition section_hashable :: "entity list option \<Rightarrow> entity_changes option \<Rightarrow> bool" where
  "section_hashable cur ec_opt =
     (case ec_opt of
        None \<Rightarrow> True
      | Some ec \<Rightarrow>
          names_hashable (case cur of None \<Rightarrow> [] | Some xs \<Rightarrow> xs) \<and>
          list_all hashable (case ent_remove ec of None \<Rightarrow> [] | Some r \<Rightarrow> r) \<and>
          names_hashable (case ent_add ec of None \<Rightarrow> [] | Some new \<Rightarrow> new))"

definition all_names_hashable :: "diagram \<Rightarrow> changeset \<Rightarrow> bool" where
  "all_names_hashable d chs =
     (case changes chs of
        None \<Rightarrow> True
      | Some cd \<Rightarrow>
          section_hashable (classes d) (ch_classes cd) \<and>
          section_hashable (actors d) (ch_actors cd) \<and>
          section_hashable (useCases d) (ch_useCases cd))"

subsection \<open>Sample documents and change-sets\<close>

definition no_keys :: diagram where
  "no_keys = \<lparr>classes = None, actors = None, useCases = None, relationships = None,
              other_keys = []\<rparr>"

definition no_changes :: change_data where
  "no_changes = \<lparr>ch_classes = None, ch_actors = None, ch_useCases = None,
                 ch_relationships = None\<rparr>"

definition user_class :: entity where
  "user_class = [(''name'', JStr ''User'')]"

definition user_class_with_attributes :: entity where
  "user_class_with_attributes =
     [(''name'', JStr ''User''),
      (''attributes'', JArr [JObj [(''name'', JStr ''email''), (''type'', JStr ''String'')]])]"

definition order_class :: entity where
  "order_class = [(''name'', JStr ''Order'')]"

definition order_class_again :: entity where
  "order_class_again = [(''name'', JStr ''Order''), (''type'', JStr ''interface'')]"

definition rel_A_B_class_style :: entity where
  "rel_A_B_class_style =
     [(''fromClass'', JStr ''A''), (''toClass'', JStr ''B''), (''type'', JStr ''association'')]"

definition rel_C_D_class_style :: entity where
  "rel_C_D_class_style =
     [(''fromClass'', JStr ''C''), (''toClass'', JStr ''D''), (''type'', JStr ''association'')]"

definition rel_A_B_plain_style :: entity where
  "rel_A_B_plain_style =
     [(''from'', JStr ''A''), (''to'', JStr ''B''), (''type'', JStr ''association'')]"

definition rel_A_B_inherits :: entity where
  "rel_A_B_inherits =
     [(''fromClass'', JStr ''A''), (''toClass'', JStr ''B''), (''type'', JStr ''inheritance'')]"

definition class_changes :: "entity_changes \<Rightarrow> changeset" where
  "class_changes ec = \<lparr>changes = Some (no_changes\<lparr>ch_classes := Some ec\<rparr>)\<rparr>"

definition relationship_changes :: "rel_changes \<Rightarrow> changeset" where
  "relationship_changes rc = \<lparr>changes = Some (no_changes\<lparr>ch_relationships := Some rc\<rparr>)\<rparr>"

subsection \<open>The merge on a store of objects\<close>

text \<open>
  \<open>modified = current_diagram.copy()\<close> is a shallow copy: a new dict whose keys refer
  to the same list objects as the argument's. \<open>modified["classes"] = [...]\<close> binds a
  key of the new dict to a new list, while \<open>modified["classes"].append(...)\<close> writes
  to whatever list object the key refers to. To see which objects a call writes to, the
  dicts and the lists live in a store, addressed by numbers; the entities in the lists
  are never written to and stay values.
\<close>

type_synonym addr = nat

datatype list_key = KClasses | KActors | KUseCases | KRelationships

record dict_obj =
  refs :: "list_key \<Rightarrow> addr option"
  scalars :: "(string \<times> jval) list"

record store =
  dicts :: "addr \<Rightarrow> dict_obj"
  lists :: "addr \<Rightarrow> entity list"
  next_addr :: addr

text \<open>\<open>current_diagram.copy()\<close>: a new dict object with the same entries.\<close>

definition copy_dict :: "addr \<Rightarrow> store \<Rightarrow> store \<times> addr" where
  "copy_dict a s =
     (s\<lparr>dicts := (dicts s)(next_addr s := dicts s a), next_addr := Suc (next_addr s)\<rparr>,
      next_addr s)"

text \<open>\<open>modified[k] = xs\<close> for a newly built list \<open>xs\<close>.\<close>

definition bind_new_list :: "addr \<Rightarrow> list_key \<Rightarrow> entity list \<Rightarrow> store \<Rightarrow> store" where
  "bind_new_list m k xs s =
     s\<lparr>lists := (lists s)(next_addr s := xs),
       dicts := (dicts s)(m := (dicts s m)\<lparr>refs := (refs (dicts s m))(k := Some (next_addr s))\<rparr>),
       next_addr := Suc (next_addr s)\<rparr>"

text \<open>\<open>lst.append(x)\<close> on the list object at address \<open>a\<close>.\<close>

definition list_append :: "addr \<Rightarrow> entity \<Rightarrow> store \<Rightarrow> store" where
  "list_append a x s = s\<lparr>lists := (lists s)(a := lists s a @ [x])\<rparr>"

text \<open>
  A statement of the merge on the store either completes or raises; either way it leaves
  a store behind. \<open>then_st\<close> runs the next statement when the one before completed.
\<close>

type_synonym st_outcome = "store \<times> error option"

definition then_st :: "st_outcome \<Rightarrow> (store \<Rightarrow> st_outcome) \<Rightarrow> st_outcome" where
  "then_st r f = (case snd r of Some e \<Rightarrow> r | None \<Rightarrow> f (fst r))"

fun add_named_st :: "addr \<Rightarrow> entity list \<Rightarrow> store \<Rightarrow> st_outcome" where
  "add_named_st a [] s = (s, None)"
| "add_named_st a (new # rest) s =
     (case existing_names (lists s a) of
        Inl e \<Rightarrow> (s, Some e)
      | Inr names \<Rightarrow>
          (case py_in (name_of new) names of
             Inl e \<Rightarrow> (s, Some e)
           | Inr found \<Rightarrow>
               if \<not> found
               then add_named_st a rest (list_append a new s)
               else add_named_st a rest s))"

fun add_rels_st :: "addr \<Rightarrow> entity list \<Rightarrow> store \<Rightarrow> store" where
  "add_rels_st a [] s = s"
| "add_rels_st a (new_rel # rest) s =
     (if \<not> rel_exists new_rel (lists s a)
      then add_rels_st a rest (list_append a new_rel s)
      else add_rels_st a rest s)"

text \<open>
  \<open>if k not in modified: modified[k] = []\<close>, returning the address the key refers to
  afterwards.
\<close>

definition ensure_list :: "addr \<Rightarrow> list_key \<Rightarrow> store \<Rightarrow> store \<times> addr" where
  "ensure_list m k s =
     (case refs (dicts s m) k of
        None \<Rightarrow> (bind_new_list m k [] s, next_addr s)
      | Some a \<Rightarrow> (s, a))"

definition entity_remove_st :: "list_key \<Rightarrow> entity_changes \<Rightarrow> addr \<Rightarrow> store \<Rightarrow> st_outcome" where
  "entity_remove_st k ec m s =
     (case ent_remove ec of
        None \<Rightarrow> (s, None)
      | Some to_remove \<Rightarrow>
          (case py_set to_remove of
             Inl e \<Rightarrow> (s, Some e)
           | Inr classes_to_remove \<Rightarrow>
               (case refs (dicts s m) k of
                  None \<Rightarrow> (s, None)
                | Some a \<Rightarrow>
                    (case remove_named classes_to_remove (lists s a) of
                       Inl e \<Rightarrow> (s, Some e)
                     | Inr kept \<Rightarrow> (bind_new_list m k kept s, None)))))"

definition entity_add_st :: "list_key \<Rightarrow> entity_changes \<Rightarrow> addr \<Rightarrow> store \<Rightarrow> st_outcome" where
  "entity_add_st k ec m s =
     (case ent_add ec of
        None \<Rightarrow> (s, None)
      | Some new \<Rightarrow> (let (s1, a) = ensure_list m k s in add_named_st a new s1))"

definition entity_changes_st :: "list_key \<Rightarrow> entity_changes \<Rightarrow> addr \<Rightarrow> store \<Rightarrow> st_outcome" where
  "entity_changes_st k ec m s = then_st (entity_remove_st k ec m s) (entity_add_st k ec m)"

text \<open>
  The removal loop of the relationships block binds the key to a new list once for every
  criterion; with an empty \<open>remove\<close> list the key keeps the list it had.
\<close>

fun remove_rels_st :: "addr \<Rightarrow> addr \<Rightarrow> entity list \<Rightarrow> store \<Rightarrow> store" where
  "remove_rels_st m a [] s = s"
| "remove_rels_st m a (rel_to_remove # rest) s =
     remove_rels_st m (next_addr s) rest
       (bind_new_list m KRelationships
          (filter (\<lambda>rel. \<not> removal_hits rel_to_remove rel) (lists s a)) s)"

definition rel_changes_st :: "rel_changes \<Rightarrow> addr \<Rightarrow> store \<Rightarrow> store" where
  "rel_changes_st rc m s =
     (let s1 = (case rel_remove rc of
                  None \<Rightarrow> s
                | Some crits \<Rightarrow>
                    (case refs (dicts s m) KRelationships of
                       None \<Rightarrow> s
                     | Some a \<Rightarrow> remove_rels_st m a crits s))
      in case rel_add rc of
           None \<Rightarrow> s1
         | Some new \<Rightarrow>
             (let (s2, a) = ensure_list m KRelationships s1 in add_rels_st a new s2))"

text \<open>
  The call \<open>_apply_changes(current_diagram, changes)\<close>: the store afterwards, and the
  address of the returned dict or the exception raised.
\<close>

definition section_st ::
  "(change_data \<Rightarrow> entity_changes option) \<Rightarrow> list_key \<Rightarrow> change_data \<Rightarrow> addr \<Rightarrow> store \<Rightarrow> st_outcome" where
  "section_st sel k cd m s =
     (case sel cd of None \<Rightarrow> (s, None) | Some ec \<Rightarrow> entity_changes_st k ec m s)"

definition apply_changes_st :: "addr \<Rightarrow> changeset \<Rightarrow> store \<Rightarrow> store \<times> addr result" where
  "apply_changes_st current_diagram chs s =
     (let (s0, modified) = copy_dict current_diagram s
      in case changes chs of
           None \<Rightarrow> (s0, Inr modified)
         | Some cd \<Rightarrow>
             (let r = then_st (then_st (then_st
                        (section_st ch_classes KClasses cd modified s0)
                        (section_st ch_actors KActors cd modified))
                        (section_st ch_useCases KUseCases cd modified))
                        (\<lambda>s3. (case ch_relationships cd of
                                 None \<Rightarrow> s3
                               | Some rc \<Rightarrow> rel_changes_st rc modified s3, None))
              in (fst r, case snd r of None \<Rightarrow> Inr modified | Some e \<Rightarrow> Inl e)))"

text \<open>The document a dict object stands for: each key with the contents of its list.\<close>

definition read_diagram :: "store \<Rightarrow> addr \<Rightarrow> diagram" where
  "read_diagram s a =
     \<lparr>classes = map_option (lists s) (refs (dicts s a) KClasses),
      actors = map_option (lists s) (refs (dicts s a) KActors),
      useCases = map_option (lists s) (refs (dicts s a) KUseCases),
      relationships = map_option (lists s) (refs (dicts s a) KRelationships),
      other_keys = scalars (dicts s a)\<rparr>"

text \<open>
  The list a key of a dict refers to, and the condition under which a dict is laid out
  as \<open>json.loads\<close> builds it: every key has a list of its own, allocated in the store.
\<close>

definition read_key :: "store \<Rightarrow> addr \<Rightarrow> list_key \<Rightarrow> entity list option" where
  "read_key s a k = map_option (lists s) (refs (dicts s a) k)"

definition separate :: "store \<Rightarrow> addr \<Rightarrow> bool" where
  "separate s a \<longleftrightarrow>
     (\<forall>k r. refs (dicts s a) k = Some r \<longrightarrow> r < next_addr s) \<and>
     (\<forall>k k' r. refs (dicts s a) k = Some r \<and> refs (dicts s a) k' = Some r \<longrightarrow> k = k')"

text \<open>
  A store holding the document \<open>{"classes": [{"name": "User"}]}\<close> as dict \<open>0\<close> with
  its list at address \<open>1\<close>, as \<open>json.loads\<close> would build it.
\<close>

definition store_with_user :: store where
  "store_with_user =
     \<lparr>dicts = (\<lambda>_. \<lparr>refs = (\<lambda>_. None), scalars = []\<rparr>)
                 (0 := \<lparr>refs = (\<lambda>_. None)(KClasses := Some 1), scalars = []\<rparr>),
      lists = (\<lambda>_. [])(1 := [user_class]),
      next_addr = 2\<rparr>"

section \<open>Projects and their files\<close>

subsection \<open>Strings and paths\<close>

text \<open>
  \<open>str.lower()\<close> on the ASCII letters; the suffixes the code tests hold no other
  letters. \<open>str.endswith\<close>.
\<close>

definition lower_char :: "char \<Rightarrow> char" where
  "lower_char c =
     (case map_of (zip ''ABCDEFGHIJKLMNOPQRSTUVWXYZ'' ''abcdefghijklmnopqrstuvwxyz'') c of
        None \<Rightarrow> c
      | Some l \<Rightarrow> l)"

definition lower :: "string \<Rightarrow> string" where
  "lower s = map lower_char s"

definition endswith :: "string \<Rightarrow> string \<Rightarrow> bool" where
  "endswith s suf \<longleftrightarrow> length suf \<le> length s \<and> drop (length s - length suf) s = suf"

text \<open>
  \<open>os.path.join(a, p)\<close> with POSIX paths: an absolute \<open>p\<close> replaces \<open>a\<close>, otherwise
  the two are put together with one separator.
\<close>

definition path_join :: "string \<Rightarrow> string \<Rightarrow> string" where
  "path_join a p =
     (if take 1 p = ''/'' then p
      else if a = [] \<or> last a = CHR ''/'' then a @ p
      else a @ ''/'' @ p)"

text \<open>
  \<open>os.path.splitext\<close>: the extension starts at the last dot of the last path component,
  unless only dots precede it there.
\<close>

definition splitext :: "string \<Rightarrow> string \<times> string" where
  "splitext p =
     (let tail = rev (takeWhile (\<lambda>c. c \<noteq> CHR ''/'') (rev p));
          ext = rev (takeWhile (\<lambda>c. c \<noteq> CHR ''.'') (rev tail));
          stem = take (length tail - length ext - 1) tail
      in if length ext < length tail \<and> (\<exists>c\<in>set stem. c \<noteq> CHR ''.'')
         then (take (length p - length ext - 1) p, CHR ''.'' # ext)
         else (p, []))"

text \<open>\<open>str(n)\<close> for a non-negative integer: decimal digits, no leading zero.\<close>

definition digit_char :: "nat \<Rightarrow> char" where
  "digit_char d = ''0123456789'' ! d"

fun show_nat :: "nat \<Rightarrow> string" where
  "show_nat n = (if n < 10 then [digit_char n] else show_nat (n div 10) @ [digit_char (n mod 10)])"

declare show_nat.simps [simp del]

text \<open>\<open>Project._get_file_type_from_extension\<close>\<close>

definition get_file_type_from_extension :: "string \<Rightarrow> string" where
  "get_file_type_from_extension file_name =
     (let extension = lower (snd (splitext file_name))
      in if extension \<in> set [''.txt'', ''.md'', ''.csv''] then ''text''
         else if extension \<in> set [''.png'', ''.jpg'', ''.jpeg'', ''.gif'', ''.bmp'', ''.svg'']
           then ''image''
         else if extension \<in> set [''.xlsx'', ''.xls''] then ''excel''
         else if extension \<in> set [''.pdf''] then ''pdf''
         else if extension \<in> set [''.json''] then ''json''
         else if extension \<in> set [''.html'', ''.htm''] then ''html''
         else ''file'')"

subsection \<open>The file system\<close>

text \<open>
  The file system is a finite table from absolute paths to nodes; the order of the table
  is the order in which the system lists a directory. The keys of the table are paths in
  canonical form, \<open>/c\<^sub>1/.../c\<^sub>n\<close>; the root directory is not in the table and always
  exists. There are no symbolic links, names differing in case are different entries,
  and the working directory is the root. Times are instants on the clock the program
  reads with \<open>datetime.now()\<close>.
\<close>

datatype node = File (content: string) (ctime: nat) (mtime: nat) | Dir

type_synonym filesystem = "(string \<times> node) list"

text \<open>
  A path as the program writes it is resolved component by component, as the system
  does: \<open>split_path\<close> cuts it at the separators; an empty component and \<open>.\<close> stay where
  they are, \<open>..\<close> goes to the parent (the root is its own parent), a name goes down; and
  every component but the last is looked up in a directory, so the walk fails when it
  has to pass through something that is no directory. A location is the list of the
  names from the root, \<open>key_of\<close> its key in the table.
\<close>

fun split_path :: "string \<Rightarrow> string list" where
  "split_path [] = [[]]"
| "split_path (c # cs) =
     (if c = CHR ''/'' then [] # split_path cs
      else case split_path cs of [] \<Rightarrow> [[c]] | w # ws \<Rightarrow> (c # w) # ws)"

definition key_of :: "string list \<Rightarrow> string" where
  "key_of loc = concat (map (\<lambda>c. CHR ''/'' # c) loc)"

definition is_dir_at :: "filesystem \<Rightarrow> string list \<Rightarrow> bool" where
  "is_dir_at fs loc \<longleftrightarrow> loc = [] \<or> map_of fs (key_of loc) = Some Dir"

fun walk :: "filesystem \<Rightarrow> string list \<Rightarrow> string list \<Rightarrow> string list option" where
  "walk fs loc [] = Some loc"
| "walk fs loc (c # rest) =
     (if \<not> is_dir_at fs loc then None
      else if c = [] \<or> c = ''.'' then walk fs loc rest
      else if c = ''..'' then walk fs (butlast loc) rest
      else walk fs (loc @ [c]) rest)"

definition locate :: "filesystem \<Rightarrow> string \<Rightarrow> string list option" where
  "locate fs p = (if p = [] then None else walk fs [] (split_path p))"

text \<open>What \<open>os.stat(p)\<close> finds, if anything.\<close>

definition node_at :: "filesystem \<Rightarrow> string \<Rightarrow> node option" where
  "node_at fs p =
     (case locate fs p of
        None \<Rightarrow> None
      | Some loc \<Rightarrow> if loc = [] then Some Dir else map_of fs (key_of loc))"

definition path_exists :: "filesystem \<Rightarrow> string \<Rightarrow> bool" where
  "path_exists fs p \<longleftrightarrow> node_at fs p \<noteq> None"

definition isfile :: "filesystem \<Rightarrow> string \<Rightarrow> bool" where
  "isfile fs p = (case node_at fs p of Some (File _ _ _) \<Rightarrow> True | _ \<Rightarrow> False)"

definition isdir :: "filesystem \<Rightarrow> string \<Rightarrow> bool" where
  "isdir fs p = (case node_at fs p of Some Dir \<Rightarrow> True | _ \<Rightarrow> False)"

text \<open>
  The name under which the table key \<open>p\<close> is an entry of the directory with key \<open>d\<close>, if
  it is one. \<open>.\<close> and \<open>..\<close> are no entries.
\<close>

definition entry_name :: "string \<Rightarrow> string \<Rightarrow> string option" where
  "entry_name d p =
     (let pre = d @ ''/''; n = drop (length pre) p
      in if take (length pre) p = pre \<and> n \<noteq> [] \<and> CHR ''/'' \<notin> set n \<and>
            n \<noteq> ''.'' \<and> n \<noteq> ''..''
         then Some n else None)"

text \<open>\<open>os.listdir(d)\<close>; \<open>None\<close> stands for the exception raised when \<open>d\<close> is no directory.\<close>

definition listdir :: "filesystem \<Rightarrow> string \<Rightarrow> string list option" where
  "listdir fs d =
     (case locate fs d of
        None \<Rightarrow> None
      | Some loc \<Rightarrow>
          if is_dir_at fs loc
          then Some (List.map_filter (entry_name (key_of loc)) (map fst fs))
          else None)"

text \<open>
  The table key under which a call that creates the entry \<open>p\<close> puts it: the path up to
  the last component must lead to a directory, and the last component must be a name.
\<close>

definition entry_target :: "filesystem \<Rightarrow> string \<Rightarrow> string option" where
  "entry_target fs p =
     (if p = [] then None
      else case walk fs [] (butlast (split_path p)) of
             None \<Rightarrow> None
           | Some loc \<Rightarrow>
               (let n = last (split_path p)
                in if is_dir_at fs loc \<and> n \<noteq> [] \<and> n \<noteq> ''.'' \<and> n \<noteq> ''..''
                   then Some (key_of (loc @ [n])) else None))"

definition fs_put :: "string \<Rightarrow> node \<Rightarrow> filesystem \<Rightarrow> filesystem" where
  "fs_put k n fs =
     (if map_of fs k \<noteq> None then map (\<lambda>(q, m). if q = k then (q, n) else (q, m)) fs
      else fs @ [(k, n)])"

text \<open>
  \<open>with open(p, 'w') as f: f.write(text)\<close> at time \<open>now\<close>. It fails (\<open>None\<close>) unless
  the parent is a directory and \<open>p\<close> is not one; an existing file keeps its creation
  time.
\<close>

definition write_file :: "nat \<Rightarrow> string \<Rightarrow> string \<Rightarrow> filesystem \<Rightarrow> filesystem option" where
  "write_file now p text fs =
     (case entry_target fs p of
        None \<Rightarrow> None
      | Some k \<Rightarrow>
          (case map_of fs k of
             Some Dir \<Rightarrow> None
           | Some (File _ c _) \<Rightarrow> Some (fs_put k (File text c now) fs)
           | None \<Rightarrow> Some (fs_put k (File text now now) fs)))"

text \<open>
  \<open>os.rename(old, new)\<close>: the entry, and with a directory everything below it, moves.
  A path may end in separators when the entry renamed is a directory. A file replaces
  an existing file and a directory an existing empty directory. The call fails
  (\<open>None\<close>) unless \<open>old\<close> is an existing entry, the parent of \<open>new\<close> is a directory, and
  \<open>new\<close> does not lie below \<open>old\<close>.
\<close>

definition rename_target :: "filesystem \<Rightarrow> string \<Rightarrow> (string \<times> bool) option" where
  "rename_target fs p =
     (let cs = split_path p;
          core = rev (dropWhile (\<lambda>c. c = []) (rev cs))
      in if p = [] \<or> core = [] then None
         else case walk fs [] (butlast core) of
                None \<Rightarrow> None
              | Some loc \<Rightarrow>
                  if is_dir_at fs loc \<and> last core \<noteq> ''.'' \<and> last core \<noteq> ''..''
                  then Some (key_of (loc @ [last core]), core \<noteq> cs) else None)"

definition below :: "string \<Rightarrow> string \<Rightarrow> bool" where
  "below k q \<longleftrightarrow> take (length k + 1) q = k @ ''/''"

definition move_entry :: "string \<Rightarrow> string \<Rightarrow> filesystem \<Rightarrow> filesystem" where
  "move_entry ko kn fs =
     map (\<lambda>(q, m).
            if q = ko then (kn, m)
            else if below ko q then (kn @ drop (length ko) q, m)
            else (q, m))
         (filter (\<lambda>(q, m). q \<noteq> kn) fs)"

definition rename_path :: "string \<Rightarrow> string \<Rightarrow> filesystem \<Rightarrow> filesystem option" where
  "rename_path old new fs =
     (case rename_target fs old of
        None \<Rightarrow> None
      | Some (ko, old_slash) \<Rightarrow>
          (case rename_target fs new of
             None \<Rightarrow> None
           | Some (kn, new_slash) \<Rightarrow>
               (case map_of fs ko of
                  None \<Rightarrow> None
                | Some moved \<Rightarrow>
                    if (old_slash \<or> new_slash) \<and> moved \<noteq> Dir then None
                    else if ko = kn then Some fs
                    else if below ko kn then None
                    else (case map_of fs kn of
                            None \<Rightarrow> Some (move_entry ko kn fs)
                          | Some Dir \<Rightarrow>
                              if moved = Dir \<and> \<not> list_ex (\<lambda>(q, m). below kn q) fs
                              then Some (move_entry ko kn fs) else None
                          | Some (File _ _ _) \<Rightarrow>
                              if moved \<noteq> Dir then Some (move_entry ko kn fs) else None))))"

subsection \<open>File records, context and project\<close>

text \<open>
  A file record is the dict \<open>scan_and_update_files\<close> builds. Its two dates are kept as
  the instants they render (\<open>datetime.fromtimestamp(...).isoformat()\<close> is a function of
  the instant).
\<close>

record file_record =
  path :: string
  name :: string
  type :: string
  added_date :: nat
  modified_date :: nat
  size :: nat

record file_buckets =
  input_bucket :: "file_record list"
  processed_bucket :: "file_record list"
  output_bucket :: "file_record list"

record processing_record =
  timestamp :: string
  operation :: string
  input_files :: "string list"
  output_files :: "(string \<times> string) list"
  details :: "(string \<times> jval) list"

record requirements =
  input_description :: string
  output_description :: string
  features :: "(string \<times> string) list"
  further_requirements :: string

record context_view =
  project_name :: string
  csv_description :: "string list"
  ui_image :: "string list"
  diagram_image :: "string list"
  requirements :: requirements
  tech_stack :: string
  generated_text_doc :: "(string \<times> string) list"
  generated_diagram :: "(string \<times> jval) list"
  prototype_code :: string

text \<open>
  The project (\<open>pname\<close>, \<open>pmodified_date\<close> and \<open>pcontext\<close> are the attributes \<open>name\<close>,
  \<open>modified_date\<close> and \<open>context\<close>). \<open>project_dir\<close> and the three bucket directories are attributes in the
  source, but they are assigned only in \<open>__init__\<close> and \<open>load_from_metadata\<close>, always
  to the same expressions in \<open>base_dir\<close>, \<open>name\<close> and \<open>id\<close>; here they are those
  expressions.
\<close>

record project =
  pname :: string
  created_date :: nat
  pmodified_date :: nat
  id :: string
  base_dir :: string
  description :: string
  tags :: "string list"
  files :: file_buckets
  processing_history :: "processing_record list"
  pcontext :: context_view

definition project_dir :: "project \<Rightarrow> string" where
  "project_dir p =
     path_join (base_dir p)
       (map (\<lambda>c. if c = CHR '' '' then CHR ''_'' else c) (pname p) @ ''_'' @ id p)"

definition input_dir :: "project \<Rightarrow> string" where
  "input_dir p = path_join (project_dir p) ''input''"

definition processed_dir :: "project \<Rightarrow> string" where
  "processed_dir p = path_join (project_dir p) ''processed''"

definition output_dir :: "project \<Rightarrow> string" where
  "output_dir p = path_join (project_dir p) ''output''"

text \<open>
  \<open>self.files[file_type]\<close> and \<open>dest_dir_map.get(file_type)\<close>: both dicts have the keys
  \<open>"input"\<close>, \<open>"processed"\<close> and \<open>"output"\<close>.
\<close>

definition bucket_files :: "string \<Rightarrow> project \<Rightarrow> file_record list option" where
  "bucket_files file_type p =
     (if file_type = ''input'' then Some (input_bucket (files p))
      else if file_type = ''processed'' then Some (processed_bucket (files p))
      else if file_type = ''output'' then Some (output_bucket (files p))
      else None)"

definition dest_dir_map :: "project \<Rightarrow> string \<Rightarrow> string option" where
  "dest_dir_map p file_type =
     (if file_type = ''input'' then Some (input_dir p)
      else if file_type = ''processed'' then Some (processed_dir p)
      else if file_type = ''output'' then Some (output_dir p)
      else None)"

text \<open>\<open>Project.get_image_dirs\<close> and \<open>Project.get_csv_dirs\<close>\<close>

definition get_image_dirs :: "project \<Rightarrow> string list" where
  "get_image_dirs p =
     map path (filter (\<lambda>file. endswith (lower (path file)) ''.png'' \<or>
                             endswith (lower (path file)) ''.jpg'' \<or>
                             endswith (lower (path file)) ''.jpeg'')
                 (processed_bucket (files p)))"

definition get_csv_dirs :: "project \<Rightarrow> string list" where
  "get_csv_dirs p =
     map path (filter (\<lambda>file. endswith (lower (path file)) ''.csv'') (processed_bucket (files p)))"

text \<open>
  \<open>Context.update_from_project\<close>. A CSV file that cannot be read contributes nothing.
\<close>

definition read_text :: "filesystem \<Rightarrow> string \<Rightarrow> string option" where
  "read_text fs p = (case node_at fs p of Some (File text _ _) \<Rightarrow> Some text | _ \<Rightarrow> None)"

definition update_from_project :: "filesystem \<Rightarrow> project \<Rightarrow> project" where
  "update_from_project fs p =
     (let all_images = get_image_dirs p
      in p\<lparr>pcontext := (pcontext p)
            \<lparr>project_name := pname p,
             csv_description := List.map_filter (read_text fs) (get_csv_dirs p),
             ui_image := all_images,
             diagram_image := all_images\<rparr>\<rparr>)"

subsection \<open>Rescan\<close>

text \<open>
  The inner loop of \<open>scan_and_update_files\<close> over the names \<open>os.listdir\<close> returned, with
  \<open>acc\<close> the list \<open>self.files[type_key]\<close> built so far.
\<close>

definition new_file_record :: "filesystem \<Rightarrow> string \<Rightarrow> string \<Rightarrow> file_record" where
  "new_file_record fs file_path file_name =
     \<lparr>path = file_path,
      name = file_name,
      type = get_file_type_from_extension file_name,
      added_date = (case node_at fs file_path of Some (File _ c _) \<Rightarrow> c | _ \<Rightarrow> 0),
      modified_date = (case node_at fs file_path of Some (File _ _ m) \<Rightarrow> m | _ \<Rightarrow> 0),
      size = (case node_at fs file_path of Some (File text _ _) \<Rightarrow> length text | _ \<Rightarrow> 0)\<rparr>"

fun scan_entries :: "filesystem \<Rightarrow> string \<Rightarrow> string list \<Rightarrow> file_record list \<Rightarrow> file_record list" where
  "scan_entries fs directory [] acc = acc"
| "scan_entries fs directory (file_name # rest) acc =
     (let file_path = path_join directory file_name
      in if isfile fs file_path then
           if endswith (lower file_name) ''.geometry.json'' then scan_entries fs directory rest acc
           else if \<not> list_ex (\<lambda>f. path f = file_path) acc
             then scan_entries fs directory rest (acc @ [new_file_record fs file_path file_name])
             else scan_entries fs directory rest acc
         else scan_entries fs directory rest acc)"

text \<open>
  The entries the loop keeps: regular files that are no geometry sidecars.
\<close>

definition wanted :: "filesystem \<Rightarrow> string \<Rightarrow> string \<Rightarrow> bool" where
  "wanted fs d n \<longleftrightarrow> isfile fs (path_join d n) \<and> \<not> endswith (lower n) ''.geometry.json''"

text \<open>
  One round of the outer loop: the sorted records of a bucket directory, \<open>Some []\<close> when
  the directory does not exist, \<open>None\<close> when \<open>os.listdir\<close> raises.
\<close>

definition scan_bucket :: "filesystem \<Rightarrow> string \<Rightarrow> file_record list option" where
  "scan_bucket fs directory =
     (if path_exists fs directory then
        (case listdir fs directory of
           None \<Rightarrow> None
         | Some names \<Rightarrow> Some (sort_key name (scan_entries fs directory names [])))
      else Some (sort_key name []))"

text \<open>
  A call either returns a value or raises; in both cases it leaves a project state behind.
  \<open>scan_and_update_files\<close> first empties the three lists, then fills them bucket by
  bucket, and only after the last bucket sets \<open>modified_date\<close> and refreshes the
  context. The broadcast at its end sends a snapshot and changes nothing here.
\<close>

datatype 'r outcome = Returned project 'r | Raised project

definition state_after :: "'r outcome \<Rightarrow> project" where
  "state_after r = (case r of Returned p _ \<Rightarrow> p | Raised p \<Rightarrow> p)"

definition scan_and_update_files :: "nat \<Rightarrow> filesystem \<Rightarrow> project \<Rightarrow> unit outcome" where
  "scan_and_update_files now fs p =
     (case scan_bucket fs (input_dir p) of
        None \<Rightarrow> Raised (p\<lparr>files := \<lparr>input_bucket = [], processed_bucket = [], output_bucket = []\<rparr>\<rparr>)
      | Some fi \<Rightarrow>
     (case scan_bucket fs (processed_dir p) of
        None \<Rightarrow> Raised (p\<lparr>files := \<lparr>input_bucket = fi, processed_bucket = [], output_bucket = []\<rparr>\<rparr>)
      | Some fp \<Rightarrow>
     (case scan_bucket fs (output_dir p) of
        None \<Rightarrow> Raised (p\<lparr>files := \<lparr>input_bucket = fi, processed_bucket = fp, output_bucket = []\<rparr>\<rparr>)
      | Some fo \<Rightarrow>
          Returned (update_from_project fs
            (p\<lparr>files := \<lparr>input_bucket = fi, processed_bucket = fp, output_bucket = fo\<rparr>,
               pmodified_date := now\<rparr>)) ())))"

subsection \<open>Registering, creating and renaming files\<close>

text \<open>
  \<open>Project.add_file\<close>: the project afterwards and the Boolean returned. The rescan runs
  inside \<open>try\<close>, so an exception in it becomes \<open>False\<close>.
\<close>

definition add_file :: "nat \<Rightarrow> filesystem \<Rightarrow> project \<Rightarrow> string \<Rightarrow> string \<Rightarrow> project \<times> bool" where
  "add_file now fs p file_path file_type =
     (case bucket_files file_type p of
        None \<Rightarrow> (p, False)
      | Some tracked \<Rightarrow>
          if \<not> path_exists fs file_path then (p, False)
          else if list_ex (\<lambda>f. path f = file_path) tracked then (p, True)
          else (case scan_and_update_files now fs p of
                  Returned p' _ \<Rightarrow> (p'\<lparr>pmodified_date := now\<rparr>, True)
                | Raised p' \<Rightarrow> (p', False)))"

text \<open>
  The name \<open>f"{original_file_name}_{counter}{file_extension}"\<close>, and the
  \<open>while os.path.exists(new_file_path)\<close> loop of \<open>create_file\<close>, which returns the
  first name that is free.
\<close>

definition numbered_name :: "string \<Rightarrow> string \<Rightarrow> nat \<Rightarrow> string" where
  "numbered_name original_file_name file_extension counter =
     original_file_name @ ''_'' @ show_nat counter @ file_extension"

partial_function (option) free_file_name ::
  "filesystem \<Rightarrow> string \<Rightarrow> string \<Rightarrow> string \<Rightarrow> string \<Rightarrow> nat \<Rightarrow> string option" where
  "free_file_name fs dest_dir original_file_name file_extension current_file_name counter =
     (if path_exists fs (path_join dest_dir current_file_name)
      then free_file_name fs dest_dir original_file_name file_extension
             (numbered_name original_file_name file_extension counter) (counter + 1)
      else Some current_file_name)"

declare free_file_name.simps [code]

text \<open>
  \<open>Project.create_file\<close>: the file system and the project afterwards and the value
  returned, \<open>None\<close> or the path written. The outer \<open>option\<close> is \<open>None\<close> when the loop
  does not end.
\<close>

definition create_file ::
  "nat \<Rightarrow> filesystem \<Rightarrow> project \<Rightarrow> string \<Rightarrow> string \<Rightarrow> string
     \<Rightarrow> (filesystem \<times> project \<times> string option) option" where
  "create_file now fs p file_name file_type text =
     (if bucket_files file_type p = None then Some (fs, p, None)
      else case dest_dir_map p file_type of
        None \<Rightarrow> Some (fs, p, None)
      | Some dest_dir \<Rightarrow>
          (case free_file_name fs dest_dir (fst (splitext file_name)) (snd (splitext file_name))
                  file_name 1 of
             None \<Rightarrow> None
           | Some current_file_name \<Rightarrow>
               (let new_file_path = path_join dest_dir current_file_name
                in case write_file now new_file_path text fs of
                     None \<Rightarrow> Some (fs, p, None)
                   | Some fs' \<Rightarrow>
                       Some (fs', fst (add_file now fs' p new_file_path file_type),
                             Some new_file_path))))"

text \<open>
  \<open>Project.rename_file\<close>. The loop over the records returns at the first record named
  \<open>file_name\<close>. The rescan for a record whose file is missing is outside any \<open>try\<close>:
  when it raises, so does \<open>rename_file\<close>.
\<close>

definition rename_file ::
  "nat \<Rightarrow> filesystem \<Rightarrow> project \<Rightarrow> string \<Rightarrow> string \<Rightarrow> string
     \<Rightarrow> filesystem \<times> bool outcome" where
  "rename_file now fs p file_name new_name file_type =
     (case bucket_files file_type p of
        None \<Rightarrow> (fs, Returned p False)
      | Some tracked \<Rightarrow>
     (case dest_dir_map p file_type of
        None \<Rightarrow> (fs, Returned p False)
      | Some dest_dir \<Rightarrow>
     (case find (\<lambda>f. name f = file_name) tracked of
        None \<Rightarrow> (fs, Returned p False)
      | Some file_info \<Rightarrow>
          (let old_path = path file_info;
               rescanned =
                 (if \<not> path_exists fs old_path
                  then scan_and_update_files now fs p
                  else Returned p ())
           in case rescanned of
                Raised p1 \<Rightarrow> (fs, Raised p1)
              | Returned p1 _ \<Rightarrow>
                  if \<not> path_exists fs old_path \<and>
                     \<not> list_ex (\<lambda>f. name f = file_name \<and> path f = old_path)
                          (case bucket_files file_type p1 of None \<Rightarrow> [] | Some fs1 \<Rightarrow> fs1)
                  then (fs, Returned p1 False)
                  else
                    (let new_path = path_join dest_dir new_name
                     in if path_exists fs new_path then (fs, Returned p1 False)
                        else case rename_path old_path new_path fs of
                               None \<Rightarrow> (fs, Returned p1 False)
                             | Some fs' \<Rightarrow>
                                 (case scan_and_update_files now fs' p1 of
                                    Returned p2 _ \<Rightarrow>
                                      (fs', Returned (p2\<lparr>pmodified_date := now\<rparr>) True)
                                  | Raised p2 \<Rightarrow> (fs', Returned p2 False)))))))"

subsection \<open>Project metadata\<close>

text \<open>
  The dict \<open>to_dict\<close> builds and \<open>json.load\<close> returns. A key may be missing from a
  loaded document, so every field is optional; \<open>directories\<close> is the inner dict from
  directory role to path.
\<close>

record requirements_md =
  md_input_description :: "string option"
  md_output_description :: "string option"
  md_features :: "(string \<times> string) list option"
  md_further_requirements :: "string option"

record metadata =
  md_name :: "string option"
  md_id :: "string option"
  md_created_date :: "string option"
  md_modified_date :: "string option"
  md_description :: "string option"
  md_tags :: "string list option"
  md_directories :: "(string \<times> string) list option"
  md_files :: "file_buckets option"
  md_processing_history :: "processing_record list option"
  md_requirements :: "requirements_md option"
  md_tech_stack :: "string option"

text \<open>
  What the code takes from Python's library: \<open>datetime.isoformat\<close> and
  \<open>datetime.fromisoformat\<close> (\<open>None\<close>: ValueError), \<open>json.dumps\<close> and \<open>json.loads\<close>
  (\<open>None\<close>: the text is no JSON object), \<open>os.path.abspath\<close> and \<open>os.getcwd\<close>.
\<close>

record pylib =
  isoformat :: "nat \<Rightarrow> string"
  fromisoformat :: "string \<Rightarrow> nat option"
  json_dumps :: "metadata \<Rightarrow> string"
  json_loads :: "string \<Rightarrow> metadata option"
  abspath :: "string \<Rightarrow> string"
  getcwd :: string

text \<open>\<open>Project.to_dict\<close>\<close>

definition to_dict :: "pylib \<Rightarrow> project \<Rightarrow> metadata" where
  "to_dict lib p =
     \<lparr>md_name = Some (pname p),
      md_id = Some (id p),
      md_created_date = Some (isoformat lib (created_date p)),
      md_modified_date = Some (isoformat lib (pmodified_date p)),
      md_description = Some (description p),
      md_tags = Some (tags p),
      md_directories = Some [(''base'', base_dir p), (''project'', project_dir p),
                             (''input'', input_dir p), (''processed'', processed_dir p),
                             (''output'', output_dir p)],
      md_files = Some (files p),
      md_processing_history = Some (processing_history p),
      md_requirements = Some
        \<lparr>md_input_description = Some (input_description (requirements (pcontext p))),
         md_output_description = Some (output_description (requirements (pcontext p))),
         md_features = Some (features (requirements (pcontext p))),
         md_further_requirements = Some (further_requirements (requirements (pcontext p)))\<rparr>,
      md_tech_stack = Some (tech_stack (pcontext p))\<rparr>"

text \<open>
  \<open>Project.save_metadata\<close>: the file system afterwards and the Boolean returned.
\<close>

definition save_metadata :: "pylib \<Rightarrow> nat \<Rightarrow> filesystem \<Rightarrow> project \<Rightarrow> filesystem \<times> bool" where
  "save_metadata lib now fs p =
     (case write_file now (path_join (project_dir p) ''project_metadata.json'')
             (json_dumps lib (to_dict lib p)) fs of
        None \<Rightarrow> (fs, False)
      | Some fs' \<Rightarrow> (fs', True))"

text \<open>
  \<open>Context.__init__\<close> followed by its call of \<open>update_from_project\<close>, and
  \<open>Project.__init__\<close> with \<open>_generate_id\<close> (the last eight hexadecimal digits of the
  clock reading).
\<close>

definition new_context :: context_view where
  "new_context =
     \<lparr>project_name = [], csv_description = [], ui_image = [], diagram_image = [],
      requirements = \<lparr>input_description = [], output_description = [], features = [],
                      further_requirements = []\<rparr>,
      tech_stack = [], generated_text_doc = [], generated_diagram = [], prototype_code = []\<rparr>"

fun show_hex :: "nat \<Rightarrow> string" where
  "show_hex n =
     (if n < 16 then [''0123456789abcdef'' ! n]
      else show_hex (n div 16) @ [''0123456789abcdef'' ! (n mod 16)])"

declare show_hex.simps [simp del]

definition generate_id :: "nat \<Rightarrow> string" where
  "generate_id now = (let h = show_hex now in drop (length h - 8) h)"

definition init_project :: "pylib \<Rightarrow> nat \<Rightarrow> filesystem \<Rightarrow> string \<Rightarrow> string \<Rightarrow> project" where
  "init_project lib now fs name' base =
     update_from_project fs
       \<lparr>pname = name',
        created_date = now,
        pmodified_date = now,
        id = generate_id now,
        base_dir = (if base \<noteq> [] then abspath lib base else getcwd lib),
        description = [],
        tags = [],
        files = \<lparr>input_bucket = [], processed_bucket = [], output_bucket = []\<rparr>,
        processing_history = [],
        pcontext = new_context\<rparr>"

text \<open>
  \<open>Project.load_from_metadata\<close>: the project, or \<open>None\<close> when anything in the body
  raises (the file cannot be read or parsed, a required key is missing, a date does not
  parse). Each step that can raise is a bind in the \<open>option\<close> monad.
\<close>

definition restore_requirements :: "requirements_md \<Rightarrow> requirements" where
  "restore_requirements req_data =
     \<lparr>input_description = (case md_input_description req_data of None \<Rightarrow> [] | Some v \<Rightarrow> v),
      output_description = (case md_output_description req_data of None \<Rightarrow> [] | Some v \<Rightarrow> v),
      features = (case md_features req_data of None \<Rightarrow> [] | Some v \<Rightarrow> v),
      further_requirements =
        (case md_further_requirements req_data of None \<Rightarrow> [] | Some v \<Rightarrow> v)\<rparr>"

definition load_from_metadata :: "pylib \<Rightarrow> nat \<Rightarrow> filesystem \<Rightarrow> string \<Rightarrow> project option" where
  "load_from_metadata lib now fs metadata_path = do {
     text \<leftarrow> read_text fs metadata_path;
     metadata \<leftarrow> json_loads lib text;
     name' \<leftarrow> md_name metadata;
     dirs \<leftarrow> md_directories metadata;
     base \<leftarrow> map_of dirs ''base'';
     id' \<leftarrow> md_id metadata;
     created_text \<leftarrow> md_created_date metadata;
     created \<leftarrow> fromisoformat lib created_text;
     modified_text \<leftarrow> md_modified_date metadata;
     modified \<leftarrow> fromisoformat lib modified_text;
     let p0 = init_project lib now fs name' base;
     let p1 = p0\<lparr>id := id',
                   created_date := created,
                   pmodified_date := modified,
                   description := (case md_description metadata of None \<Rightarrow> [] | Some v \<Rightarrow> v),
                   tags := (case md_tags metadata of None \<Rightarrow> [] | Some v \<Rightarrow> v),
                   files := (case md_files metadata of
                               None \<Rightarrow> \<lparr>input_bucket = [], processed_bucket = [],
                                         output_bucket = []\<rparr>
                             | Some v \<Rightarrow> v),
                   processing_history :=
                     (case md_processing_history metadata of None \<Rightarrow> [] | Some v \<Rightarrow> v)\<rparr>;
     let p2 = update_from_project fs (p1\<lparr>pcontext := new_context\<rparr>);
     let p3 = (case md_requirements metadata of
                 None \<Rightarrow> p2
               | Some req_data \<Rightarrow>
                   p2\<lparr>pcontext := (pcontext p2)
                        \<lparr>requirements := restore_requirements req_data\<rparr>\<rparr>);
     let p4 = p3\<lparr>pcontext := (pcontext p3)
                   \<lparr>tech_stack := (case md_tech_stack metadata of None \<Rightarrow> [] | Some v \<Rightarrow> v)\<rparr>\<rparr>;
     Some (update_from_project fs p4)
   }"

subsection \<open>A sample project\<close>

text \<open>
  The project "Demo" with id "abc12345" under \<open>/w\<close>, its directory structure, and a toy
  stand-in for the library that renders an instant as its decimal numeral and knows the
  JSON text of one document.
\<close>

definition demo_project :: project where
  "demo_project =
     \<lparr>pname = ''Demo'', created_date = 1, pmodified_date = 1, id = ''abc12345'',
      base_dir = ''/w'', description = [], tags = [],
      files = \<lparr>input_bucket = [], processed_bucket = [], output_bucket = []\<rparr>,
      processing_history = [], pcontext = new_context\<rparr>"

definition demo_dirs :: filesystem where
  "demo_dirs =
     [(''/w'', Dir), (''/w/Demo_abc12345'', Dir), (''/w/Demo_abc12345/input'', Dir),
      (''/w/Demo_abc12345/processed'', Dir), (''/w/Demo_abc12345/output'', Dir)]"

definition file_named :: "string \<Rightarrow> string \<Rightarrow> file_record" where
  "file_named directory file_name =
     \<lparr>path = path_join directory file_name, name = file_name,
      type = get_file_type_from_extension file_name,
      added_date = 2, modified_date = 3, size = 0\<rparr>"

text \<open>
  The spec's round-trip example: two input files and the requirements
  \<open>{features: {"auth": "OAuth2"}}\<close>, with generated content in the context.
\<close>

definition demo_with_files :: project where
  "demo_with_files =
     demo_project
       \<lparr>tags := [''draft''],
        files := \<lparr>input_bucket = [file_named ''/w/Demo_abc12345/input'' ''a.xlsx'',
                                  file_named ''/w/Demo_abc12345/input'' ''b.xlsx''],
                  processed_bucket = [], output_bucket = []\<rparr>,
        pcontext := new_context
          \<lparr>requirements := \<lparr>input_description = [], output_description = [],
                             features = [(''auth'', ''OAuth2'')], further_requirements = []\<rparr>,
           prototype_code := ''<html></html>''\<rparr>\<rparr>"

definition demo_dates :: pylib where
  "demo_dates =
     \<lparr>isoformat = show_nat,
      fromisoformat = (\<lambda>s. if s = ''1'' then Some 1 else None),
      json_dumps = (\<lambda>_. []),
      json_loads = (\<lambda>_. None),
      abspath = (\<lambda>p. p),
      getcwd = ''/''\<rparr>"

definition demo_lib :: pylib where
  "demo_lib =
     demo_dates
       \<lparr>json_dumps := (\<lambda>_. ''demo''),
        json_loads := (\<lambda>s. if s = ''demo'' then Some (to_dict demo_dates demo_with_files)
                            else None)\<rparr>"

text \<open>
  A project whose one output record, \<open>a.txt\<close>, may or may not have its file on disk.
\<close>

definition demo_tracking_a :: project where
  "demo_tracking_a =
     demo_project
       \<lparr>files := \<lparr>input_bucket = [], processed_bucket = [],
                  output_bucket = [file_named ''/w/Demo_abc12345/output'' ''a.txt'']\<rparr>\<rparr>"






section \<open>Properties of the diagram merge\<close>

subsection \<open>Python's equality\<close>

lemma py_eq_refl [simp]: "py_eq a a"
  by (simp add: py_eq_def)

lemma py_eq_sym: "py_eq a b \<Longrightarrow> py_eq b a"
  by (simp add: py_eq_def)

lemma py_eq_trans: "py_eq a b \<Longrightarrow> py_eq b c \<Longrightarrow> py_eq a c"
  by (simp add: py_eq_def)

text \<open>\<open>True == 1\<close>, and the order of the keys of a dict does not count.\<close>

lemma py_eq_true_one: "py_eq (JBool True) (JNum 1)"
  by (simp add: py_eq_def)

lemma py_eq_dict_order:
  "py_eq (JObj [(''a'', JNum 1), (''b'', JArr [JBool False])])
         (JObj [(''b'', JArr [JNum 0]), (''a'', JNum 1)])"
  by code_simp

lemma name_in_names:
  "list_ex (py_eq (name_of c)) (map name_of xs) \<longleftrightarrow> name_key c \<in> name_key ` set xs"
  by (auto simp: list_ex_iff py_eq_def name_key_def)

lemma and_then_Inl [simp]: "and_then (Inl e) f = Inl e"
  by (simp add: and_then_def)

lemma and_then_Inr [simp]: "and_then (Inr x) f = f x"
  by (simp add: and_then_def)

lemma and_then_eq_Inr: "and_then r f = Inr y \<longleftrightarrow> (\<exists>x. r = Inr x \<and> f x = Inr y)"
  by (cases r) simp_all

subsection \<open>What the merge leaves under each key\<close>

lemma apply_changes_no_envelope: "changes chs = None \<Longrightarrow> apply_changes cur chs = Inr cur"
  by (simp add: apply_changes_def)

lemma apply_changes_steps:
  assumes "apply_changes cur chs = Inr doc" and "changes chs = Some cd"
  obtains m1 m2 m3 where
    "(case ch_classes cd of
        None \<Rightarrow> Inr cur
      | Some ec \<Rightarrow> and_then (apply_entity_changes ec (classes cur))
                    (\<lambda>v. Inr (cur\<lparr>classes := v\<rparr>))) = Inr m1"
    "(case ch_actors cd of
        None \<Rightarrow> Inr m1
      | Some ec \<Rightarrow> and_then (apply_entity_changes ec (actors m1))
                    (\<lambda>v. Inr (m1\<lparr>actors := v\<rparr>))) = Inr m2"
    "(case ch_useCases cd of
        None \<Rightarrow> Inr m2
      | Some ec \<Rightarrow> and_then (apply_entity_changes ec (useCases m2))
                    (\<lambda>v. Inr (m2\<lparr>useCases := v\<rparr>))) = Inr m3"
    "doc = (case ch_relationships cd of
              None \<Rightarrow> m3
            | Some rc \<Rightarrow> m3\<lparr>relationships := apply_rel_changes rc (relationships m3)\<rparr>)"
  using assms by (auto simp: apply_changes_def and_then_eq_Inr)

lemma section_step:
  assumes "(case ec_opt of
              None \<Rightarrow> Inr m
            | Some ec \<Rightarrow> and_then (apply_entity_changes ec (sel m)) (\<lambda>v. Inr (upd v m))) = Inr m'"
  shows "(case ec_opt of
            None \<Rightarrow> m' = m
          | Some ec \<Rightarrow> \<exists>v. apply_entity_changes ec (sel m) = Inr v \<and> m' = upd v m)"
  using assms by (cases ec_opt) (auto simp: and_then_eq_Inr)

lemma apply_changes_sections:
  assumes "apply_changes cur chs = Inr doc" and "changes chs = Some cd"
  shows "(case ch_cat cat cd of
            None \<Rightarrow> doc_cat cat doc = doc_cat cat cur
          | Some ec \<Rightarrow> apply_entity_changes ec (doc_cat cat cur) = Inr (doc_cat cat doc))"
    and "relationships doc =
           (case ch_relationships cd of
              None \<Rightarrow> relationships cur
            | Some rc \<Rightarrow> apply_rel_changes rc (relationships cur))"
    and "other_keys doc = other_keys cur"
proof -
  from assms obtain m1 m2 m3 where steps:
    "(case ch_classes cd of
        None \<Rightarrow> Inr cur
      | Some ec \<Rightarrow> and_then (apply_entity_changes ec (classes cur))
                    (\<lambda>v. Inr (cur\<lparr>classes := v\<rparr>))) = Inr m1"
    "(case ch_actors cd of
        None \<Rightarrow> Inr m1
      | Some ec \<Rightarrow> and_then (apply_entity_changes ec (actors m1))
                    (\<lambda>v. Inr (m1\<lparr>actors := v\<rparr>))) = Inr m2"
    "(case ch_useCases cd of
        None \<Rightarrow> Inr m2
      | Some ec \<Rightarrow> and_then (apply_entity_changes ec (useCases m2))
                    (\<lambda>v. Inr (m2\<lparr>useCases := v\<rparr>))) = Inr m3"
    "doc = (case ch_relationships cd of
              None \<Rightarrow> m3
            | Some rc \<Rightarrow> m3\<lparr>relationships := apply_rel_changes rc (relationships m3)\<rparr>)"
    by (rule apply_changes_steps)
  note s1 = section_step[where sel = classes and upd = "\<lambda>v m. m\<lparr>classes := v\<rparr>", OF steps(1)]
  note s2 = section_step[where sel = actors and upd = "\<lambda>v m. m\<lparr>actors := v\<rparr>", OF steps(2)]
  note s3 = section_step[where sel = useCases and upd = "\<lambda>v m. m\<lparr>useCases := v\<rparr>", OF steps(3)]
  have f1: "actors m1 = actors cur" "useCases m1 = useCases cur"
    "relationships m1 = relationships cur" "other_keys m1 = other_keys cur"
    "case ch_classes cd of None \<Rightarrow> classes m1 = classes cur
     | Some ec \<Rightarrow> apply_entity_changes ec (classes cur) = Inr (classes m1)"
    using s1 by (cases "ch_classes cd"; auto)+
  have f2: "classes m2 = classes m1" "useCases m2 = useCases m1"
    "relationships m2 = relationships m1" "other_keys m2 = other_keys m1"
    "case ch_actors cd of None \<Rightarrow> actors m2 = actors m1
     | Some ec \<Rightarrow> apply_entity_changes ec (actors m1) = Inr (actors m2)"
    using s2 by (cases "ch_actors cd"; auto)+
  have f3: "classes m3 = classes m2" "actors m3 = actors m2"
    "relationships m3 = relationships m2" "other_keys m3 = other_keys m2"
    "case ch_useCases cd of None \<Rightarrow> useCases m3 = useCases m2
     | Some ec \<Rightarrow> apply_entity_changes ec (useCases m2) = Inr (useCases m3)"
    using s3 by (cases "ch_useCases cd"; auto)+
  have f4: "classes doc = classes m3" "actors doc = actors m3" "useCases doc = useCases m3"
    "other_keys doc = other_keys m3"
    "relationships doc = (case ch_relationships cd of
              None \<Rightarrow> relationships m3
            | Some rc \<Rightarrow> apply_rel_changes rc (relationships m3))"
    using steps(4) by (cases "ch_relationships cd"; simp)+
  show "(case ch_cat cat cd of
            None \<Rightarrow> doc_cat cat doc = doc_cat cat cur
          | Some ec \<Rightarrow> apply_entity_changes ec (doc_cat cat cur) = Inr (doc_cat cat doc))"
  proof (cases cat)
    case Classes
    with f1(5) f2(1) f3(1) f4(1) show ?thesis by (simp split: option.splits)
  next
    case Actors
    with f1(1) f2(5) f3(2) f4(2) show ?thesis by (simp split: option.splits)
  next
    case UseCases
    with f1(2) f2(2) f3(5) f4(3) show ?thesis by (simp split: option.splits)
  qed
  show "relationships doc =
           (case ch_relationships cd of
              None \<Rightarrow> relationships cur
            | Some rc \<Rightarrow> apply_rel_changes rc (relationships cur))"
    using f1(3) f2(3) f3(3) f4(5) by (simp split: option.splits)
  show "other_keys doc = other_keys cur"
    using f1(4) f2(4) f3(4) f4(4) by simp
qed

lemma apply_changes_returns_if:
  assumes "changes chs = Some cd"
    and "\<And>cat ec. ch_cat cat cd = Some ec \<Longrightarrow> \<exists>v. apply_entity_changes ec (doc_cat cat cur) = Inr v"
  shows "\<exists>doc. apply_changes cur chs = Inr doc"
proof -
  have c: "ch_classes cd = Some ec \<Longrightarrow> \<exists>v. apply_entity_changes ec (classes cur) = Inr v" for ec
    using assms(2)[of Classes ec] by simp
  have a: "ch_actors cd = Some ec \<Longrightarrow> \<exists>v. apply_entity_changes ec (actors cur) = Inr v" for ec
    using assms(2)[of Actors ec] by simp
  have u: "ch_useCases cd = Some ec \<Longrightarrow> \<exists>v. apply_entity_changes ec (useCases cur) = Inr v" for ec
    using assms(2)[of UseCases ec] by simp
  obtain m1 where m1: "(case ch_classes cd of
                      None \<Rightarrow> Inr cur
                    | Some ec \<Rightarrow>
                        and_then (apply_entity_changes ec (classes cur))
                          (\<lambda>v. Inr (cur\<lparr>classes := v\<rparr>))) = Inr m1"
      "actors m1 = actors cur" "useCases m1 = useCases cur"
    using c by (cases "ch_classes cd") auto
  obtain m2 where m2: "(case ch_actors cd of
                      None \<Rightarrow> Inr m1
                    | Some ec \<Rightarrow>
                        and_then (apply_entity_changes ec (actors m1))
                          (\<lambda>v. Inr (m1\<lparr>actors := v\<rparr>))) = Inr m2"
      "useCases m2 = useCases cur"
    using a m1(2,3) by (cases "ch_actors cd") auto
  obtain m3 where m3: "(case ch_useCases cd of
                      None \<Rightarrow> Inr m2
                    | Some ec \<Rightarrow>
                        and_then (apply_entity_changes ec (useCases m2))
                          (\<lambda>v. Inr (m2\<lparr>useCases := v\<rparr>))) = Inr m3"
    using u m2(2) by (cases "ch_useCases cd") auto
  show ?thesis
    using assms(1) m1(1) m2(1) m3 by (simp add: apply_changes_def)
qed

subsection \<open>The removal step for named entities\<close>

lemma remove_named_Cons:
  "remove_named S (c # rest) =
     (if \<not> hashable (name_of c) then Inl TypeError
      else case remove_named S rest of
             Inl e \<Rightarrow> Inl e
           | Inr kept \<Rightarrow> Inr (if list_ex (py_eq (name_of c)) S then kept else c # kept))"
  by (simp add: py_in_def split: sum.splits)

declare remove_named.simps(2) [simp del]

lemma remove_named_Inr:
  "remove_named S xs = Inr ys \<Longrightarrow> ys = filter (\<lambda>e. \<not> list_ex (py_eq (name_of e)) S) xs"
proof (induction xs arbitrary: ys)
  case Nil
  then show ?case by simp
next
  case (Cons c rest)
  then show ?case
    by (auto simp: remove_named_Cons split: if_splits sum.splits)
qed

lemma remove_named_returns:
  "names_hashable xs \<Longrightarrow> \<exists>ys. remove_named S xs = Inr ys"
proof (induction xs)
  case Nil
  then show ?case by simp
next
  case (Cons c rest)
  then show ?case
    by (auto simp: remove_named_Cons names_hashable_def)
qed

lemma names_hashable_filter: "names_hashable xs \<Longrightarrow> names_hashable (filter P xs)"
  by (simp add: names_hashable_def list_all_iff)

lemma entity_remove_Inr:
  "entity_remove ec cur = Inr v \<Longrightarrow>
   (case v of None \<Rightarrow> [] | Some xs \<Rightarrow> xs) = filtered_base ec cur \<and> (v = None \<longleftrightarrow> cur = None)"
  by (auto simp: entity_remove_def filtered_base_def and_then_eq_Inr py_set_def
      dest: remove_named_Inr split: option.splits if_splits)

lemma entity_remove_returns:
  assumes "names_hashable (case cur of None \<Rightarrow> [] | Some xs \<Rightarrow> xs)"
    and "list_all hashable (case ent_remove ec of None \<Rightarrow> [] | Some r \<Rightarrow> r)"
  shows "\<exists>v. entity_remove ec cur = Inr v"
proof (cases "ent_remove ec")
  case None
  then show ?thesis by (simp add: entity_remove_def)
next
  case (Some r)
  show ?thesis
  proof (cases cur)
    case None
    with Some assms show ?thesis by (simp add: entity_remove_def py_set_def)
  next
    case (Some xs)
    with assms(1) obtain ys where "remove_named r xs = Inr ys"
      using remove_named_returns by fastforce
    with Some \<open>ent_remove ec = Some r\<close> assms(2) show ?thesis
      by (simp add: entity_remove_def py_set_def)
  qed
qed

subsection \<open>The add loop for named entities\<close>

lemma add_named_Cons:
  "add_named xs (c # cs) =
     (if \<not> names_hashable xs \<or> \<not> hashable (name_of c) then Inl TypeError
      else if name_key c \<in> name_key ` set xs then add_named xs cs
      else add_named (xs @ [c]) cs)"
  by (simp add: existing_names_def py_set_def py_in_def names_hashable_def name_in_names
      list.pred_map comp_def)

declare add_named.simps(2) [simp del]

lemma add_named_decomp:
  "add_named xs new = Inr ys \<Longrightarrow>
   \<exists>app. ys = xs @ app \<and> subseq app new \<and>
     (\<forall>a\<in>set app. name_key a \<notin> name_key ` set xs) \<and> distinct (map name_key app)"
proof (induction new arbitrary: xs)
  case Nil
  then show ?case by simp
next
  case (Cons c cs)
  show ?case
  proof (cases "name_key c \<in> name_key ` set xs")
    case True
    with Cons.prems have "add_named xs cs = Inr ys"
      by (simp add: add_named_Cons split: if_splits)
    from Cons.IH[OF this] obtain app where
      "ys = xs @ app" "subseq app cs"
      "\<forall>a\<in>set app. name_key a \<notin> name_key ` set xs" "distinct (map name_key app)"
      by blast
    then show ?thesis by (intro exI[of _ app]) auto
  next
    case False
    with Cons.prems have "add_named (xs @ [c]) cs = Inr ys"
      by (simp add: add_named_Cons split: if_splits)
    from Cons.IH[OF this] obtain app where
      "ys = (xs @ [c]) @ app" "subseq app cs"
      "\<forall>a\<in>set app. name_key a \<notin> name_key ` set (xs @ [c])" "distinct (map name_key app)"
      by blast
    with False show ?thesis by (intro exI[of _ "c # app"]) auto
  qed
qed

lemma add_named_first_fresh:
  "add_named xs new = Inr ys \<Longrightarrow> new = pre @ c # post \<Longrightarrow>
   name_key c \<notin> name_key ` set xs \<Longrightarrow> name_key c \<notin> name_key ` set pre \<Longrightarrow> c \<in> set ys"
proof (induction pre arbitrary: xs new)
  case Nil
  then have "add_named (xs @ [c]) post = Inr ys"
    by (simp add: add_named_Cons split: if_splits)
  then obtain app where "ys = (xs @ [c]) @ app"
    using add_named_decomp by blast
  then show ?case by simp
next
  case (Cons d pre)
  from Cons.prems(1,2) have
    "add_named xs (pre @ c # post) = Inr ys \<or> add_named (xs @ [d]) (pre @ c # post) = Inr ys"
    by (simp add: add_named_Cons split: if_splits)
  then show ?case
  proof
    assume "add_named xs (pre @ c # post) = Inr ys"
    from Cons.IH[OF this refl] Cons.prems(3,4) show ?thesis by simp
  next
    assume "add_named (xs @ [d]) (pre @ c # post) = Inr ys"
    from Cons.IH[OF this refl] Cons.prems(3,4) show ?thesis by auto
  qed
qed

lemma add_named_returns:
  "names_hashable xs \<Longrightarrow> names_hashable new \<Longrightarrow> \<exists>ys. add_named xs new = Inr ys"
proof (induction new arbitrary: xs)
  case Nil
  then show ?case by simp
next
  case (Cons c cs)
  from Cons.prems have h: "hashable (name_of c)" "names_hashable cs"
    by (simp_all add: names_hashable_def)
  with Cons.prems(1) have "names_hashable (xs @ [c])"
    by (simp add: names_hashable_def)
  with Cons.IH[of xs] Cons.IH[of "xs @ [c]"] Cons.prems(1) h show ?case
    by (simp add: add_named_Cons)
qed

lemma distinct_map_comp: "distinct (map (\<lambda>x. f (g x)) xs) \<Longrightarrow> distinct (map g xs)"
  by (induction xs) auto

lemma distinct_keys_add_named:
  assumes "add_named xs new = Inr ys"
  shows "distinct (map name_key xs) \<Longrightarrow> distinct (map name_key ys)"
    and "distinct (map name_of xs) \<Longrightarrow> distinct (map name_of ys)"
proof -
  from add_named_decomp[OF assms] obtain app where app: "ys = xs @ app"
    "\<forall>a\<in>set app. name_key a \<notin> name_key ` set xs" "distinct (map name_key app)"
    by blast
  have "name_key a \<noteq> name_key x" if "a \<in> set app" "x \<in> set xs" for a x
    using app(2) that by force
  then show "distinct (map name_key ys)" if "distinct (map name_key xs)"
    using that app(1,3) by force
  have "name_key = (\<lambda>x. py_norm (name_of x))"
    by (simp add: fun_eq_iff name_key_def)
  with app(3) have "distinct (map name_of app)"
    using distinct_map_comp[of py_norm name_of app] by simp
  moreover have "name_of a \<noteq> name_of x" if "a \<in> set app" "x \<in> set xs" for a x
    using app(2) that by (force simp: name_key_def)
  ultimately show "distinct (map name_of ys)" if "distinct (map name_of xs)"
    using that app(1) by force
qed

lemma apply_entity_changes_Inr:
  assumes "apply_entity_changes ec cur = Inr v"
  shows "case ent_add ec of
           None \<Rightarrow> (case v of None \<Rightarrow> [] | Some xs \<Rightarrow> xs) = filtered_base ec cur \<and>
                   (v = None \<longleftrightarrow> cur = None)
         | Some new \<Rightarrow> \<exists>ys. v = Some ys \<and> add_named (filtered_base ec cur) new = Inr ys"
proof -
  from assms obtain w where w: "entity_remove ec cur = Inr w" "entity_add ec w = Inr v"
    by (auto simp: apply_entity_changes_def and_then_eq_Inr)
  from entity_remove_Inr[OF w(1)] w(2) show ?thesis
    by (auto simp: entity_add_def and_then_eq_Inr split: option.splits)
qed

lemma apply_entity_changes_returns:
  assumes "section_hashable cur (Some ec)"
  shows "\<exists>v. apply_entity_changes ec cur = Inr v"
proof -
  from assms obtain w where w: "entity_remove ec cur = Inr w"
    using entity_remove_returns[of cur ec] by (auto simp: section_hashable_def)
  have base: "names_hashable (case w of None \<Rightarrow> [] | Some xs \<Rightarrow> xs)"
  proof -
    have "names_hashable (filtered_base ec cur)"
      using assms
      by (auto simp: filtered_base_def section_hashable_def names_hashable_filter
          split: option.splits)
    with entity_remove_Inr[OF w] show ?thesis by simp
  qed
  have "\<exists>v. entity_add ec w = Inr v"
  proof (cases "ent_add ec")
    case None
    then show ?thesis by (simp add: entity_add_def)
  next
    case (Some new)
    with assms have "names_hashable new" by (simp add: section_hashable_def)
    with base obtain ys where "add_named (case w of None \<Rightarrow> [] | Some xs \<Rightarrow> xs) new = Inr ys"
      using add_named_returns by blast
    with Some show ?thesis by (simp add: entity_add_def)
  qed
  with w show ?thesis by (simp add: apply_entity_changes_def)
qed

lemma apply_changes_returns:
  assumes "all_names_hashable cur chs"
  shows "\<exists>doc. apply_changes cur chs = Inr doc"
proof (cases "changes chs")
  case None
  then show ?thesis by (simp add: apply_changes_no_envelope)
next
  case (Some cd)
  have "\<exists>v. apply_entity_changes ec (doc_cat cat cur) = Inr v" if "ch_cat cat cd = Some ec" for cat ec
  proof -
    have "section_hashable (doc_cat cat cur) (Some ec)"
      using assms Some that by (cases cat) (auto simp: all_names_hashable_def)
    then show ?thesis by (rule apply_entity_changes_returns)
  qed
  with Some show ?thesis by (rule apply_changes_returns_if)
qed

text \<open>
  Two inputs on which the merge depends on Python's hashing and equality: a candidate
  named \<open>true\<close> is skipped beside an element named \<open>1\<close>, and a dict in a remove list makes
  the call raise \<open>TypeError\<close>, even when the document has no classes at all.
\<close>

lemma candidate_named_true_is_skipped_beside_one:
  "apply_changes (no_keys\<lparr>classes := Some [[(''name'', JNum 1)]]\<rparr>)
     (class_changes \<lparr>ent_remove = None, ent_add = Some [[(''name'', JBool True)]]\<rparr>)
   = Inr (no_keys\<lparr>classes := Some [[(''name'', JNum 1)]]\<rparr>)"
  by code_simp

lemma dict_in_remove_list_raises:
  "apply_changes no_keys
     (class_changes \<lparr>ent_remove = Some [JObj [(''name'', JStr ''User'')]], ent_add = None\<rparr>)
   = Inl TypeError"
  by code_simp

text \<open>
  Claim C2. For each of the categories classes, actors and useCases, when the change-set
  has an add list for the category: the call returns whenever every name it hashes is
  hashable, and whenever it returns, the array in the returned document is the current
  array after the removal step, unchanged and in its order, followed by candidates of
  the add list in their order. Names are compared as Python compares them. No appended
  candidate has the name of an element of that array and no two appended candidates
  share a name (a candidate whose name is already present is skipped); a candidate whose
  name is neither in the array nor carried by an earlier candidate is appended.
\<close>

theorem add_skips_existing_names:
  assumes "changes chs = Some cd" and "ch_cat cat cd = Some ec" and "ent_add ec = Some new"
  shows "(all_names_hashable cur chs \<longrightarrow> (\<exists>doc. apply_changes cur chs = Inr doc)) \<and>
    (\<forall>doc. apply_changes cur chs = Inr doc \<longrightarrow>
      (\<exists>appended.
         doc_cat cat doc = Some (filtered_base ec (doc_cat cat cur) @ appended) \<and>
         subseq appended new \<and>
         (\<forall>a\<in>set appended. name_key a \<notin> name_key ` set (filtered_base ec (doc_cat cat cur))) \<and>
         distinct (map name_key appended) \<and>
         (\<forall>pre c post. new = pre @ c # post \<longrightarrow>
            name_key c \<notin> name_key ` set (filtered_base ec (doc_cat cat cur)) \<longrightarrow>
            name_key c \<notin> name_key ` set pre \<longrightarrow> c \<in> set appended)))"
proof (intro conjI allI impI)
  assume "all_names_hashable cur chs"
  then show "\<exists>doc. apply_changes cur chs = Inr doc" by (rule apply_changes_returns)
next
  fix doc
  assume ret: "apply_changes cur chs = Inr doc"
  let ?base = "filtered_base ec (doc_cat cat cur)"
  from apply_changes_sections(1)[OF ret assms(1), of cat] assms(2)
  have "apply_entity_changes ec (doc_cat cat cur) = Inr (doc_cat cat doc)" by simp
  from apply_entity_changes_Inr[OF this] assms(3)
  obtain ys where ys: "doc_cat cat doc = Some ys" "add_named ?base new = Inr ys" by auto
  from add_named_decomp[OF ys(2)] obtain app where app: "ys = ?base @ app" "subseq app new"
    "\<forall>a\<in>set app. name_key a \<notin> name_key ` set ?base" "distinct (map name_key app)"
    by blast
  have "c \<in> set app" if "new = pre @ c # post" "name_key c \<notin> name_key ` set ?base"
    "name_key c \<notin> name_key ` set pre" for pre c post
  proof -
    have "c \<in> set ys" using ys(2) that by (rule add_named_first_fresh)
    moreover have "c \<notin> set ?base" using that(2) by blast
    ultimately show ?thesis using app(1) by simp
  qed
  with ys(1) app show "\<exists>appended.
         doc_cat cat doc = Some (?base @ appended) \<and>
         subseq appended new \<and>
         (\<forall>a\<in>set appended. name_key a \<notin> name_key ` set ?base) \<and>
         distinct (map name_key appended) \<and>
         (\<forall>pre c post. new = pre @ c # post \<longrightarrow>
            name_key c \<notin> name_key ` set ?base \<longrightarrow>
            name_key c \<notin> name_key ` set pre \<longrightarrow> c \<in> set appended)"
    by (intro exI[of _ app]) simp
qed

text \<open>
  The spec's example: the document \<open>{classes: [{name: "User"}]}\<close> and a change-set
  adding a class named "User" with attributes. The call returns, and the result has the
  one original class.
\<close>

theorem add_skips_existing_names_witness:
  "changes (class_changes \<lparr>ent_remove = None, ent_add = Some [user_class_with_attributes]\<rparr>)
     = Some (no_changes\<lparr>ch_classes :=
         Some \<lparr>ent_remove = None, ent_add = Some [user_class_with_attributes]\<rparr>\<rparr>) \<and>
   ch_cat Classes (no_changes\<lparr>ch_classes :=
         Some \<lparr>ent_remove = None, ent_add = Some [user_class_with_attributes]\<rparr>\<rparr>)
     = Some \<lparr>ent_remove = None, ent_add = Some [user_class_with_attributes]\<rparr> \<and>
   all_names_hashable (no_keys\<lparr>classes := Some [user_class]\<rparr>)
      (class_changes \<lparr>ent_remove = None, ent_add = Some [user_class_with_attributes]\<rparr>) \<and>
   apply_changes (no_keys\<lparr>classes := Some [user_class]\<rparr>)
      (class_changes \<lparr>ent_remove = None, ent_add = Some [user_class_with_attributes]\<rparr>)
     = Inr (no_keys\<lparr>classes := Some [user_class]\<rparr>)"
proof -
  let ?ec = "\<lparr>ent_remove = None, ent_add = Some [user_class_with_attributes]\<rparr>"
  let ?cur = "no_keys\<lparr>classes := Some [user_class]\<rparr>"
  have h1: "changes (class_changes ?ec) = Some (no_changes\<lparr>ch_classes := Some ?ec\<rparr>)"
    by (simp add: class_changes_def)
  have h2: "ch_cat Classes (no_changes\<lparr>ch_classes := Some ?ec\<rparr>) = Some ?ec"
    by simp
  have h3: "ent_add ?ec = Some [user_class_with_attributes]"
    by simp
  have ok: "all_names_hashable ?cur (class_changes ?ec)"
    by code_simp
  from add_skips_existing_names[OF h1 h2 h3, of ?cur] ok
  obtain doc where doc: "apply_changes ?cur (class_changes ?ec) = Inr doc"
    by blast
  moreover have "apply_changes ?cur (class_changes ?ec) = Inr ?cur"
    by code_simp
  ultimately have "doc = ?cur"
    by simp
  with doc h1 h2 ok show ?thesis by simp
qed

text \<open>
  Claim C10. Take a category (classes, actors or useCases) whose array is present in the
  current document. The call returns whenever every name it hashes is hashable; and
  whenever it returns, the array is present in the returned document, and if the names
  in the current array are pairwise distinct, so are the names in the returned one,
  whatever the change-set holds. This holds for names told apart as Python tells them
  apart (\<open>name_key\<close>), and for names told apart as JSON values.
\<close>

theorem distinct_names_preserved:
  assumes "doc_cat cat cur = Some xs"
  shows "(all_names_hashable cur chs \<longrightarrow> (\<exists>doc. apply_changes cur chs = Inr doc)) \<and>
    (\<forall>doc. apply_changes cur chs = Inr doc \<longrightarrow>
      (\<exists>ys. doc_cat cat doc = Some ys \<and>
         (distinct (map name_key xs) \<longrightarrow> distinct (map name_key ys)) \<and>
         (distinct (map name_of xs) \<longrightarrow> distinct (map name_of ys))))"
proof (intro conjI allI impI)
  assume "all_names_hashable cur chs"
  then show "\<exists>doc. apply_changes cur chs = Inr doc" by (rule apply_changes_returns)
next
  fix doc
  assume ret: "apply_changes cur chs = Inr doc"
  show "\<exists>ys. doc_cat cat doc = Some ys \<and>
         (distinct (map name_key xs) \<longrightarrow> distinct (map name_key ys)) \<and>
         (distinct (map name_of xs) \<longrightarrow> distinct (map name_of ys))"
  proof (cases "changes chs")
    case None
    with ret have "doc = cur" by (simp add: apply_changes_no_envelope)
    with assms show ?thesis by simp
  next
    case (Some cd)
    show ?thesis
    proof (cases "ch_cat cat cd")
      case None
      with apply_changes_sections(1)[OF ret Some, of cat] assms show ?thesis by simp
    next
      case (Some ec)
      let ?base = "filtered_base ec (doc_cat cat cur)"
      have base: "distinct (map name_key xs) \<longrightarrow> distinct (map name_key ?base)"
        "distinct (map name_of xs) \<longrightarrow> distinct (map name_of ?base)"
        using assms by (auto simp: filtered_base_def distinct_map_filter split: option.splits)
      from apply_changes_sections(1)[OF ret \<open>changes chs = Some cd\<close>, of cat] Some
      have "apply_entity_changes ec (doc_cat cat cur) = Inr (doc_cat cat doc)" by simp
      note r = apply_entity_changes_Inr[OF this]
      show ?thesis
      proof (cases "ent_add ec")
        case None
        with r assms obtain ys where "doc_cat cat doc = Some ys" "ys = ?base"
          by (cases "doc_cat cat doc") auto
        with base show ?thesis by simp
      next
        case (Some new)
        with r obtain ys where ys: "doc_cat cat doc = Some ys" "add_named ?base new = Inr ys"
          by auto
        with base distinct_keys_add_named[OF ys(2)] show ?thesis by blast
      qed
    qed
  qed
qed

text \<open>
  An add list with two candidates of the same new name: only the first is added.
\<close>

theorem distinct_names_preserved_witness:
  "doc_cat Classes (no_keys\<lparr>classes := Some [user_class]\<rparr>) = Some [user_class] \<and>
   all_names_hashable (no_keys\<lparr>classes := Some [user_class]\<rparr>)
      (class_changes \<lparr>ent_remove = None, ent_add = Some [order_class, order_class_again]\<rparr>) \<and>
   apply_changes (no_keys\<lparr>classes := Some [user_class]\<rparr>)
      (class_changes \<lparr>ent_remove = None, ent_add = Some [order_class, order_class_again]\<rparr>)
     = Inr (no_keys\<lparr>classes := Some [user_class, order_class]\<rparr>) \<and>
   distinct (map name_key [user_class]) \<and>
   distinct (map name_key [user_class, order_class])"
proof -
  let ?chs = "class_changes \<lparr>ent_remove = None, ent_add = Some [order_class, order_class_again]\<rparr>"
  let ?cur = "no_keys\<lparr>classes := Some [user_class]\<rparr>"
  have h1: "doc_cat Classes ?cur = Some [user_class]"
    by (simp add: no_keys_def)
  have ok: "all_names_hashable ?cur ?chs"
    by code_simp
  have res: "apply_changes ?cur ?chs = Inr (no_keys\<lparr>classes := Some [user_class, order_class]\<rparr>)"
    by code_simp
  have d: "distinct (map name_key [user_class])"
    by code_simp
  from distinct_names_preserved[OF h1, of ?chs] res d
  have "distinct (map name_key [user_class, order_class])"
    by (auto simp: no_keys_def)
  with h1 ok res d show ?thesis by simp
qed

subsection \<open>Relationships\<close>

lemma remove_rels_filter:
  "remove_rels rels crits = filter (\<lambda>rel. \<forall>c\<in>set crits. \<not> removal_hits c rel) rels"
proof (induction crits arbitrary: rels)
  case Nil
  show ?case by simp
next
  case (Cons c cs)
  show ?case by (simp add: Cons.IH conj_commute)
qed

lemma add_rels_decomp:
  "\<exists>app. add_rels rels new = rels @ app \<and> subseq app new \<and>
     (\<forall>pre a post. app = pre @ a # post \<longrightarrow> (\<forall>r\<in>set (rels @ pre). \<not> same_rel a r))"
proof (induction new arbitrary: rels)
  case Nil
  show ?case by simp
next
  case (Cons c cs)
  show ?case
  proof (cases "rel_exists c rels")
    case True
    from Cons.IH[of rels] obtain app where
      "add_rels rels cs = rels @ app" "subseq app cs"
      "\<forall>pre a post. app = pre @ a # post \<longrightarrow> (\<forall>r\<in>set (rels @ pre). \<not> same_rel a r)"
      by blast
    with True show ?thesis by (intro exI[of _ app]) auto
  next
    case False
    from Cons.IH[of "rels @ [c]"] obtain app where app:
      "add_rels (rels @ [c]) cs = (rels @ [c]) @ app" "subseq app cs"
      "\<forall>pre a post. app = pre @ a # post \<longrightarrow>
         (\<forall>r\<in>set ((rels @ [c]) @ pre). \<not> same_rel a r)"
      by blast
    have "\<forall>r\<in>set (rels @ pre). \<not> same_rel a r" if "c # app = pre @ a # post" for pre a post
    proof (cases pre)
      case Nil
      with that have "a = c" by simp
      with False Nil show ?thesis by (simp add: rel_exists_def list_ex_iff)
    next
      case (Cons d pre')
      with that have "d = c" "app = pre' @ a # post" by simp_all
      from app(3) \<open>app = pre' @ a # post\<close>
      have "\<forall>r\<in>set ((rels @ [c]) @ pre'). \<not> same_rel a r" by blast
      with Cons \<open>d = c\<close> show ?thesis by simp
    qed
    with False app(1,2) show ?thesis by (intro exI[of _ "c # app"]) simp
  qed
qed

text \<open>
  Claim C1, as stated, at the document with the one relationship
  \<open>{fromClass: "A", toClass: "B", type: "association"}\<close> and a change-set that removes
  \<open>{from: "A", to: "B", type: "association"}\<close> and adds the stored relationship again:
  the removal step drops it, the add step, which runs afterwards, appends it.
\<close>

theorem removal_then_add_keeps_relationship:
  "dict_get rel_A_B_class_style ''fromClass'' = dict_get rel_A_B_plain_style ''from'' \<and>
   dict_get rel_A_B_class_style ''toClass'' = dict_get rel_A_B_plain_style ''to'' \<and>
   dict_get rel_A_B_class_style ''type'' = dict_get rel_A_B_plain_style ''type'' \<and>
   apply_changes (no_keys\<lparr>relationships := Some [rel_A_B_class_style]\<rparr>)
      (relationship_changes
         \<lparr>rel_remove = Some [rel_A_B_plain_style], rel_add = Some [rel_A_B_class_style]\<rparr>)
     = Inr (no_keys\<lparr>relationships := Some [rel_A_B_class_style]\<rparr>)"
  by code_simp

text \<open>
  Claim C1, amended. Take a change-set whose removal list holds a criterion, and a
  document with a relationships array. The call returns whenever every name it hashes in
  the name-keyed categories is hashable (the relationships block itself never raises).
  Whenever it returns, the relationships array of the returned document consists of
  relationships kept from the current array, none of which has \<open>fromClass\<close>, \<open>toClass\<close>
  and \<open>type\<close> equal to the criterion's \<open>from\<close>, \<open>to\<close> and \<open>type\<close> (nor matches it as
  the code's own test \<open>removal_hits\<close> has it, under either convention and with Python's
  equality), followed by relationships taken from the change-set's own add list. A
  stored relationship matching the criterion is therefore gone from the result unless
  the same change-set adds it again.
\<close>

theorem removal_matches_fromClass_convention:
  assumes "changes chs = Some cd" and "ch_relationships cd = Some rc"
    and "rel_remove rc = Some crits" and "crit \<in> set crits"
    and "relationships cur = Some rels"
  shows "(all_names_hashable cur chs \<longrightarrow> (\<exists>doc. apply_changes cur chs = Inr doc)) \<and>
    (\<forall>doc. apply_changes cur chs = Inr doc \<longrightarrow>
      (\<exists>kept appended.
         relationships doc = Some (kept @ appended) \<and>
         subseq kept rels \<and>
         subseq appended (case rel_add rc of None \<Rightarrow> [] | Some new \<Rightarrow> new) \<and>
         (\<forall>rel\<in>set kept.
            \<not> (dict_get rel ''fromClass'' = dict_get crit ''from'' \<and>
               dict_get rel ''toClass'' = dict_get crit ''to'' \<and>
               dict_get rel ''type'' = dict_get crit ''type'')) \<and>
         (\<forall>rel\<in>set kept. \<not> removal_hits crit rel)))"
proof (intro conjI allI impI)
  assume "all_names_hashable cur chs"
  then show "\<exists>doc. apply_changes cur chs = Inr doc" by (rule apply_changes_returns)
next
  fix doc
  assume ret: "apply_changes cur chs = Inr doc"
  let ?kept = "remove_rels rels crits"
  let ?new = "case rel_add rc of None \<Rightarrow> [] | Some new \<Rightarrow> new"
  have sub: "subseq ?kept rels" by (simp add: remove_rels_filter)
  have nohit: "\<forall>rel\<in>set ?kept. \<not> removal_hits crit rel"
    using assms(4) by (simp add: remove_rels_filter)
  have clean: "\<forall>rel\<in>set ?kept.
        \<not> (dict_get rel ''fromClass'' = dict_get crit ''from'' \<and>
           dict_get rel ''toClass'' = dict_get crit ''to'' \<and>
           dict_get rel ''type'' = dict_get crit ''type'')"
  proof
    fix rel assume "rel \<in> set ?kept"
    with nohit have "\<not> removal_hits crit rel" by blast
    then show "\<not> (dict_get rel ''fromClass'' = dict_get crit ''from'' \<and>
           dict_get rel ''toClass'' = dict_get crit ''to'' \<and>
           dict_get rel ''type'' = dict_get crit ''type'')"
      by (auto simp: removal_hits_def)
  qed
  from apply_changes_sections(2)[OF ret assms(1)] assms(2)
  have res: "relationships doc = apply_rel_changes rc (relationships cur)" by simp
  have "\<exists>app. relationships doc = Some (?kept @ app) \<and> subseq app ?new"
  proof (cases "rel_add rc")
    case None
    with res assms(3,5) have "relationships doc = Some (?kept @ [])"
      by (simp add: apply_rel_changes_def)
    with None show ?thesis by (intro exI[of _ "[]"]) simp
  next
    case (Some new)
    obtain app where app: "add_rels ?kept new = ?kept @ app" "subseq app new"
      using add_rels_decomp by blast
    from res assms(3,5) Some have "relationships doc = Some (add_rels ?kept new)"
      by (simp add: apply_rel_changes_def)
    with app Some show ?thesis by (intro exI[of _ app]) simp
  qed
  then obtain app where "relationships doc = Some (?kept @ app)" "subseq app ?new"
    by blast
  with sub clean nohit show "\<exists>kept appended.
         relationships doc = Some (kept @ appended) \<and>
         subseq kept rels \<and>
         subseq appended ?new \<and>
         (\<forall>rel\<in>set kept.
            \<not> (dict_get rel ''fromClass'' = dict_get crit ''from'' \<and>
               dict_get rel ''toClass'' = dict_get crit ''to'' \<and>
               dict_get rel ''type'' = dict_get crit ''type'')) \<and>
         (\<forall>rel\<in>set kept. \<not> removal_hits crit rel)"
    by (intro exI[of _ ?kept] exI[of _ app]) simp
qed

text \<open>
  The spec's example: the stored relationship is in the \<open>fromClass\<close>/\<open>toClass\<close> style,
  the removal request in the \<open>from\<close>/\<open>to\<close> style, and nothing is added. The call returns
  the document with no relationship left.
\<close>

theorem removal_matches_fromClass_convention_witness:
  "changes (relationship_changes \<lparr>rel_remove = Some [rel_A_B_plain_style], rel_add = None\<rparr>)
     = Some (no_changes\<lparr>ch_relationships :=
         Some \<lparr>rel_remove = Some [rel_A_B_plain_style], rel_add = None\<rparr>\<rparr>) \<and>
   ch_relationships (no_changes\<lparr>ch_relationships :=
         Some \<lparr>rel_remove = Some [rel_A_B_plain_style], rel_add = None\<rparr>\<rparr>)
     = Some \<lparr>rel_remove = Some [rel_A_B_plain_style], rel_add = None\<rparr> \<and>
   rel_A_B_plain_style \<in> set [rel_A_B_plain_style] \<and>
   all_names_hashable (no_keys\<lparr>relationships := Some [rel_A_B_class_style]\<rparr>)
      (relationship_changes \<lparr>rel_remove = Some [rel_A_B_plain_style], rel_add = None\<rparr>) \<and>
   apply_changes (no_keys\<lparr>relationships := Some [rel_A_B_class_style]\<rparr>)
      (relationship_changes \<lparr>rel_remove = Some [rel_A_B_plain_style], rel_add = None\<rparr>)
     = Inr (no_keys\<lparr>relationships := Some []\<rparr>)"
proof -
  let ?rc = "\<lparr>rel_remove = Some [rel_A_B_plain_style], rel_add = None\<rparr>"
  let ?cur = "no_keys\<lparr>relationships := Some [rel_A_B_class_style]\<rparr>"
  have h1: "changes (relationship_changes ?rc) = Some (no_changes\<lparr>ch_relationships := Some ?rc\<rparr>)"
    by (simp add: relationship_changes_def)
  have h2: "ch_relationships (no_changes\<lparr>ch_relationships := Some ?rc\<rparr>) = Some ?rc"
    by simp
  have h3: "rel_remove ?rc = Some [rel_A_B_plain_style]"
    by simp
  have h4: "rel_A_B_plain_style \<in> set [rel_A_B_plain_style]"
    by simp
  have h5: "relationships ?cur = Some [rel_A_B_class_style]"
    by simp
  have ok: "all_names_hashable ?cur (relationship_changes ?rc)"
    by code_simp
  from removal_matches_fromClass_convention[OF h1 h2 h3 h4 h5] ok
  obtain doc where doc: "apply_changes ?cur (relationship_changes ?rc) = Inr doc"
    by blast
  moreover have "apply_changes ?cur (relationship_changes ?rc) = Inr (no_keys\<lparr>relationships := Some []\<rparr>)"
    by code_simp
  ultimately have "doc = no_keys\<lparr>relationships := Some []\<rparr>"
    by simp
  with doc h1 h2 ok show ?thesis by simp
qed

subsection \<open>The duplicate test of the relationships add loop\<close>

text \<open>
  Two relationships written in the \<open>fromClass\<close>/\<open>toClass\<close> convention both lack the fields
  \<open>from\<close> and \<open>to\<close>; \<open>.get\<close> gives \<open>None\<close> for them on both sides, \<open>None == None\<close> holds,
  and the second half of the duplicate test reduces to equality of the types. The same
  holds of two relationships in the \<open>from\<close>/\<open>to\<close> convention and the first half of the
  test.
\<close>

lemma same_rel_ignores_endpoints_of_class_style:
  assumes "dict_get rel ''from'' = JNull" and "dict_get rel ''to'' = JNull"
    and "dict_get new_rel ''from'' = JNull" and "dict_get new_rel ''to'' = JNull"
  shows "same_rel new_rel rel \<longleftrightarrow> py_eq (dict_get rel ''type'') (dict_get new_rel ''type'')"
  using assms by (auto simp: same_rel_def)

lemma same_rel_ignores_endpoints_of_plain_style:
  assumes "dict_get rel ''fromClass'' = JNull" and "dict_get rel ''toClass'' = JNull"
    and "dict_get new_rel ''fromClass'' = JNull" and "dict_get new_rel ''toClass'' = JNull"
  shows "same_rel new_rel rel \<longleftrightarrow> py_eq (dict_get rel ''type'') (dict_get new_rel ''type'')"
  using assms by (auto simp: same_rel_def)

text \<open>
  Claim C3 says that a candidate whose endpoints match no existing relationship under
  either convention is appended. At the document with the one relationship
  \<open>{fromClass: "A", toClass: "B", type: "association"}\<close> and the add list
  \<open>[{fromClass: "C", toClass: "D", type: "association"}]\<close>, in the shape the class-diagram
  edit prompt asks for, the call returns the document unchanged: the candidate is
  skipped as a duplicate of a relationship between two other classes.
\<close>

theorem same_type_candidate_is_skipped:
  "apply_changes (no_keys\<lparr>relationships := Some [rel_A_B_class_style]\<rparr>)
      (relationship_changes \<lparr>rel_remove = None, rel_add = Some [rel_C_D_class_style]\<rparr>)
     = Inr (no_keys\<lparr>relationships := Some [rel_A_B_class_style]\<rparr>)"
  by code_simp

text \<open>
  The claim's own example goes the other way: the stored relationship
  \<open>{fromClass: "A", toClass: "B", type: "association"}\<close> and the candidate
  \<open>{from: "A", to: "B", type: "association"}\<close>. The duplicate test compares
  \<open>fromClass\<close> with \<open>fromClass\<close> and \<open>from\<close> with \<open>from\<close> only, so the candidate is not
  recognised and is appended.
\<close>

lemma cross_convention_candidate_is_appended:
  "apply_changes (no_keys\<lparr>relationships := Some [rel_A_B_class_style]\<rparr>)
      (relationship_changes \<lparr>rel_remove = None, rel_add = Some [rel_A_B_plain_style]\<rparr>)
     = Inr (no_keys\<lparr>relationships := Some [rel_A_B_class_style, rel_A_B_plain_style]\<rparr>)"
  by code_simp

text \<open>
  A candidate of a type not yet in the array is appended, whatever its endpoints.
\<close>

lemma other_type_candidate_is_appended:
  "apply_changes (no_keys\<lparr>relationships := Some [rel_A_B_class_style]\<rparr>)
      (relationship_changes \<lparr>rel_remove = None, rel_add = Some [rel_A_B_inherits]\<rparr>)
     = Inr (no_keys\<lparr>relationships := Some [rel_A_B_class_style, rel_A_B_inherits]\<rparr>)"
  by code_simp

subsection \<open>What the call does to its argument\<close>

text \<open>
  Claim C4 at the document \<open>{"classes": [{"name": "User"}]}\<close> and the add-only
  change-set \<open>{"changes": {"classes": {"add": [{"name": "Order"}]}}}\<close>. The call returns
  a new dict object, but its \<open>classes\<close> key still refers to the argument's list, and
  \<open>append\<close> writes to that list: after the call the argument reads
  \<open>{"classes": [{"name": "User"}, {"name": "Order"}]}\<close>.
\<close>

theorem add_only_change_mutates_argument:
  "read_diagram store_with_user 0 = no_keys\<lparr>classes := Some [user_class]\<rparr> \<and>
   snd (apply_changes_st 0
          (class_changes \<lparr>ent_remove = None, ent_add = Some [order_class]\<rparr>) store_with_user)
     = Inr 2 \<and>
   read_diagram
     (fst (apply_changes_st 0
          (class_changes \<lparr>ent_remove = None, ent_add = Some [order_class]\<rparr>) store_with_user)) 0
     = no_keys\<lparr>classes := Some [user_class, order_class]\<rparr>"
  by (simp add: read_diagram_def store_with_user_def class_changes_def no_changes_def
      no_keys_def apply_changes_st_def copy_dict_def section_st_def then_st_def
      entity_changes_st_def entity_remove_st_def entity_add_st_def ensure_list_def
      bind_new_list_def list_append_def existing_names_def py_set_def py_in_def hashable_def
      py_eq_def name_of_def dict_get_def user_class_def order_class_def Let_def)

subsection \<open>The store model and the value model agree\<close>

lemma read_diagram_keys:
  "read_diagram s a =
     \<lparr>classes = read_key s a KClasses, actors = read_key s a KActors,
      useCases = read_key s a KUseCases, relationships = read_key s a KRelationships,
      other_keys = scalars (dicts s a)\<rparr>"
  by (simp add: read_diagram_def read_key_def)

lemma bind_new_list_reads:
  assumes "separate s m"
  shows "read_key (bind_new_list m k xs s) m k' = (if k' = k then Some xs else read_key s m k')"
    and "separate (bind_new_list m k xs s) m"
    and "scalars (dicts (bind_new_list m k xs s) m) = scalars (dicts s m)"
proof -
  show "read_key (bind_new_list m k xs s) m k' = (if k' = k then Some xs else read_key s m k')"
  proof (cases "refs (dicts s m) k'")
    case None
    then show ?thesis by (simp add: read_key_def bind_new_list_def)
  next
    case (Some r)
    with assms have "r \<noteq> next_addr s" by (auto simp: separate_def)
    with Some show ?thesis by (simp add: read_key_def bind_new_list_def)
  qed
  show "separate (bind_new_list m k xs s) m"
    using assms by (fastforce simp: bind_new_list_def separate_def)
  show "scalars (dicts (bind_new_list m k xs s) m) = scalars (dicts s m)"
    by (simp add: bind_new_list_def)
qed

text \<open>
  The add loop on the store: it writes to the one list it is given and to nothing else,
  and that list runs through the values of the loop by value; when it raises, the
  candidates appended so far stay in the list.
\<close>

lemma add_named_st_effect:
  "dicts (fst (add_named_st a new s)) = dicts s \<and>
   next_addr (fst (add_named_st a new s)) = next_addr s \<and>
   (\<forall>b. b \<noteq> a \<longrightarrow> lists (fst (add_named_st a new s)) b = lists s b) \<and>
   (case snd (add_named_st a new s) of
      None \<Rightarrow> add_named (lists s a) new = Inr (lists (fst (add_named_st a new s)) a)
    | Some e \<Rightarrow> add_named (lists s a) new = Inl e)"
proof (induction new arbitrary: s)
  case Nil
  show ?case by simp
next
  case (Cons c cs)
  show ?case
  proof (cases "existing_names (lists s a)")
    case (Inl e)
    then show ?thesis by (simp add: add_named.simps(2))
  next
    case (Inr names)
    note names = this
    show ?thesis
    proof (cases "py_in (name_of c) names")
      case (Inl e)
      with names show ?thesis by (simp add: add_named.simps(2))
    next
      case (Inr found)
      show ?thesis
      proof (cases found)
        case True
        with names Inr Cons.IH[of s] show ?thesis
          by (simp add: add_named.simps(2) split: option.splits)
      next
        case False
        with names Inr Cons.IH[of "list_append a c s"] show ?thesis
          by (simp add: add_named.simps(2) list_append_def split: option.splits)
      qed
    qed
  qed
qed

lemma add_rels_st_effect:
  "lists (add_rels_st a new s) = (lists s)(a := add_rels (lists s a) new) \<and>
   dicts (add_rels_st a new s) = dicts s \<and> next_addr (add_rels_st a new s) = next_addr s"
  by (induction new arbitrary: s) (simp_all add: list_append_def)

lemma update_list_reads:
  assumes "separate s m" and "refs (dicts s m) k = Some a"
    and "\<forall>b. b \<noteq> a \<longrightarrow> lists s' b = lists s b" "dicts s' = dicts s" "next_addr s' = next_addr s"
  shows "read_key s' m k' = (if k' = k then Some (lists s' a) else read_key s m k')"
    and "separate s' m"
proof -
  show "read_key s' m k' = (if k' = k then Some (lists s' a) else read_key s m k')"
  proof (cases "refs (dicts s m) k'")
    case None
    with assms show ?thesis by (auto simp: read_key_def)
  next
    case (Some r)
    have "r \<noteq> a" if "k' \<noteq> k" using that assms(1,2) Some by (auto simp: separate_def)
    with Some assms show ?thesis by (auto simp: read_key_def)
  qed
  show "separate s' m" using assms by (simp add: separate_def)
qed

text \<open>
  What a statement on the store does to the document read from dict \<open>m\<close>, when the value
  model computes \<open>g\<close> under key \<open>k\<close>: if the statement completes, the key holds the value
  computed and the other keys what they held; if it raises, so does the value model.
\<close>

lemma entity_remove_st_reads:
  assumes "separate s m"
  shows "case snd (entity_remove_st k ec m s) of
           None \<Rightarrow>
             entity_remove ec (read_key s m k) = Inr (read_key (fst (entity_remove_st k ec m s)) m k) \<and>
             (\<forall>k'. k' \<noteq> k \<longrightarrow> read_key (fst (entity_remove_st k ec m s)) m k' = read_key s m k') \<and>
             separate (fst (entity_remove_st k ec m s)) m \<and>
             scalars (dicts (fst (entity_remove_st k ec m s)) m) = scalars (dicts s m)
         | Some e \<Rightarrow> entity_remove ec (read_key s m k) = Inl e"
proof (cases "ent_remove ec")
  case None
  with assms show ?thesis by (simp add: entity_remove_st_def entity_remove_def)
next
  case (Some to_remove)
  note rem = this
  show ?thesis
  proof (cases "py_set to_remove")
    case (Inl e)
    with rem show ?thesis by (simp add: entity_remove_st_def entity_remove_def)
  next
    case (Inr S)
    note S = this
    show ?thesis
    proof (cases "refs (dicts s m) k")
      case None
      with rem S assms show ?thesis
        by (simp add: entity_remove_st_def entity_remove_def read_key_def)
    next
      case (Some a)
      note ref = this
      show ?thesis
      proof (cases "remove_named S (lists s a)")
        case (Inl e)
        with rem S ref show ?thesis
          by (simp add: entity_remove_st_def entity_remove_def read_key_def)
      next
        case (Inr kept)
        with rem S ref have r: "entity_remove_st k ec m s = (bind_new_list m k kept s, None)"
          "entity_remove ec (read_key s m k) = Inr (Some kept)"
          by (simp_all add: entity_remove_st_def entity_remove_def read_key_def)
        with bind_new_list_reads[OF assms, of k kept] show ?thesis by simp
      qed
    qed
  qed
qed

lemma entity_add_st_reads:
  assumes "separate s m"
  shows "case snd (entity_add_st k ec m s) of
           None \<Rightarrow>
             entity_add ec (read_key s m k) = Inr (read_key (fst (entity_add_st k ec m s)) m k) \<and>
             (\<forall>k'. k' \<noteq> k \<longrightarrow> read_key (fst (entity_add_st k ec m s)) m k' = read_key s m k') \<and>
             separate (fst (entity_add_st k ec m s)) m \<and>
             scalars (dicts (fst (entity_add_st k ec m s)) m) = scalars (dicts s m)
         | Some e \<Rightarrow> entity_add ec (read_key s m k) = Inl e"
proof (cases "ent_add ec")
  case None
  with assms show ?thesis by (simp add: entity_add_st_def entity_add_def)
next
  case (Some new)
  obtain s1 a where ens: "ensure_list m k s = (s1, a)" by (cases "ensure_list m k s")
  have s1: "separate s1 m" "refs (dicts s1 m) k = Some a"
    "lists s1 a = (case read_key s m k of None \<Rightarrow> [] | Some xs \<Rightarrow> xs)"
    "\<forall>k'. k' \<noteq> k \<longrightarrow> read_key s1 m k' = read_key s m k'"
    "scalars (dicts s1 m) = scalars (dicts s m)"
  proof -
    show "separate s1 m"
      using ens assms bind_new_list_reads(2)[OF assms, of k "[]"]
      by (auto simp: ensure_list_def split: option.splits)
    show "refs (dicts s1 m) k = Some a"
      using ens by (auto simp: ensure_list_def bind_new_list_def split: option.splits)
    show "lists s1 a = (case read_key s m k of None \<Rightarrow> [] | Some xs \<Rightarrow> xs)"
      using ens by (auto simp: ensure_list_def bind_new_list_def read_key_def split: option.splits)
    show "\<forall>k'. k' \<noteq> k \<longrightarrow> read_key s1 m k' = read_key s m k'"
      using ens bind_new_list_reads(1)[OF assms, of k "[]"]
      by (auto simp: ensure_list_def split: option.splits)
    show "scalars (dicts s1 m) = scalars (dicts s m)"
      using ens by (auto simp: ensure_list_def bind_new_list_def split: option.splits)
  qed
  have run: "entity_add_st k ec m s = add_named_st a new s1"
    using Some ens by (simp add: entity_add_st_def)
  have val: "entity_add ec (read_key s m k) =
      and_then (add_named (lists s1 a) new) (\<lambda>ys. Inr (Some ys))"
    using Some s1(3) by (simp add: entity_add_def)
  note eff = add_named_st_effect[of a new s1]
  show ?thesis
  proof (cases "snd (add_named_st a new s1)")
    case None
    let ?s' = "fst (add_named_st a new s1)"
    from eff None have e: "add_named (lists s1 a) new = Inr (lists ?s' a)"
      "\<forall>b. b \<noteq> a \<longrightarrow> lists ?s' b = lists s1 b" "dicts ?s' = dicts s1"
      "next_addr ?s' = next_addr s1"
      by simp_all
    note u = update_list_reads[OF s1(1,2) e(2,3,4)]
    have "read_key ?s' m k = Some (lists ?s' a)" using u(1)[of k] by simp
    moreover have "\<forall>k'. k' \<noteq> k \<longrightarrow> read_key ?s' m k' = read_key s m k'"
      using u(1) s1(4) by simp
    moreover have "scalars (dicts ?s' m) = scalars (dicts s m)"
      using e(3) s1(5) by simp
    ultimately show ?thesis using None run val e(1) u(2) by simp
  next
    case (Some err)
    with eff have "add_named (lists s1 a) new = Inl err" by simp
    with Some run val show ?thesis by simp
  qed
qed

lemma entity_changes_st_reads:
  assumes "separate s m"
  shows "case snd (entity_changes_st k ec m s) of
           None \<Rightarrow>
             apply_entity_changes ec (read_key s m k)
               = Inr (read_key (fst (entity_changes_st k ec m s)) m k) \<and>
             (\<forall>k'. k' \<noteq> k \<longrightarrow> read_key (fst (entity_changes_st k ec m s)) m k' = read_key s m k') \<and>
             separate (fst (entity_changes_st k ec m s)) m \<and>
             scalars (dicts (fst (entity_changes_st k ec m s)) m) = scalars (dicts s m)
         | Some e \<Rightarrow> apply_entity_changes ec (read_key s m k) = Inl e"
proof (cases "snd (entity_remove_st k ec m s)")
  case (Some e)
  with entity_remove_st_reads[OF assms, where k = k and ec = ec] show ?thesis
    by (simp add: entity_changes_st_def then_st_def apply_entity_changes_def)
next
  case None
  let ?s1 = "fst (entity_remove_st k ec m s)"
  from None entity_remove_st_reads[OF assms, where k = k and ec = ec] have r:
    "entity_remove ec (read_key s m k) = Inr (read_key ?s1 m k)"
    "\<forall>k'. k' \<noteq> k \<longrightarrow> read_key ?s1 m k' = read_key s m k'"
    "separate ?s1 m" "scalars (dicts ?s1 m) = scalars (dicts s m)"
    by simp_all
  have run: "entity_changes_st k ec m s = entity_add_st k ec m ?s1"
    using None by (simp add: entity_changes_st_def then_st_def)
  have val: "apply_entity_changes ec (read_key s m k) = entity_add ec (read_key ?s1 m k)"
    using r(1) by (simp add: apply_entity_changes_def)
  from entity_add_st_reads[OF r(3), where k = k and ec = ec] r(2,4) show ?thesis
    by (simp add: run val split: option.splits)
qed

lemma remove_rels_st_effect:
  assumes "separate s m" and "refs (dicts s m) KRelationships = Some a"
  shows "read_key (remove_rels_st m a crits s) m k' =
           (if k' = KRelationships then Some (remove_rels (lists s a) crits) else read_key s m k') \<and>
         separate (remove_rels_st m a crits s) m \<and>
         scalars (dicts (remove_rels_st m a crits s) m) = scalars (dicts s m)"
  using assms
proof (induction crits arbitrary: s a)
  case Nil
  then show ?case by (simp add: read_key_def)
next
  case (Cons c cs)
  let ?ys = "filter (\<lambda>rel. \<not> removal_hits c rel) (lists s a)"
  let ?s1 = "bind_new_list m KRelationships ?ys s"
  note b = bind_new_list_reads[OF Cons.prems(1), of KRelationships ?ys]
  have ref1: "refs (dicts ?s1 m) KRelationships = Some (next_addr s)"
    by (simp add: bind_new_list_def)
  have l1: "lists ?s1 (next_addr s) = ?ys"
    by (simp add: bind_new_list_def)
  from Cons.IH[OF b(2) ref1] b(1,3) l1 show ?case
    by simp
qed

lemma rel_changes_st_reads:
  assumes "separate s m"
  shows "read_key (rel_changes_st rc m s) m k' =
           (if k' = KRelationships then apply_rel_changes rc (read_key s m KRelationships) else read_key s m k')"
    and "separate (rel_changes_st rc m s) m"
    and "scalars (dicts (rel_changes_st rc m s) m) = scalars (dicts s m)"
proof -
  define s1 where "s1 =
     (case rel_remove rc of
        None \<Rightarrow> s
      | Some crits \<Rightarrow>
          (case refs (dicts s m) KRelationships of
             None \<Rightarrow> s
           | Some a \<Rightarrow> remove_rels_st m a crits s))"
  have all1: "(\<forall>k'. read_key s1 m k' =
      (if k' = KRelationships then (case rel_remove rc of None \<Rightarrow> read_key s m KRelationships
                       | Some crits \<Rightarrow> (case read_key s m KRelationships of None \<Rightarrow> None
                            | Some xs \<Rightarrow> Some (remove_rels xs crits)))
       else read_key s m k')) \<and> separate s1 m \<and> scalars (dicts s1 m) = scalars (dicts s m)"
  proof (cases "rel_remove rc")
    case None
    with assms show ?thesis by (simp add: s1_def)
  next
    case (Some crits)
    show ?thesis
    proof (cases "refs (dicts s m) KRelationships")
      case None
      with Some assms show ?thesis by (simp add: s1_def read_key_def)
    next
      case (Some a)
      with \<open>rel_remove rc = Some crits\<close> have "s1 = remove_rels_st m a crits s"
        by (simp add: s1_def)
      moreover have "read_key s m KRelationships = Some (lists s a)"
        using Some by (simp add: read_key_def)
      ultimately show ?thesis
        using remove_rels_st_effect[OF assms Some, of crits] \<open>rel_remove rc = Some crits\<close>
        by simp
    qed
  qed
  then have r1: "read_key s1 m k' =
      (if k' = KRelationships then (case rel_remove rc of None \<Rightarrow> read_key s m KRelationships
                       | Some crits \<Rightarrow> (case read_key s m KRelationships of None \<Rightarrow> None
                            | Some xs \<Rightarrow> Some (remove_rels xs crits)))
       else read_key s m k')" for k'
    by blast
  from all1 have sep1: "separate s1 m" and sc1: "scalars (dicts s1 m) = scalars (dicts s m)"
    by blast+
  have removed: "(case rel_remove rc of None \<Rightarrow> read_key s m KRelationships
        | Some to_remove \<Rightarrow> (case read_key s m KRelationships of None \<Rightarrow> None
              | Some xs \<Rightarrow> Some (remove_rels xs to_remove)))
      = read_key s1 m KRelationships"
    by (simp add: r1)
  have run: "rel_changes_st rc m s =
      (case rel_add rc of None \<Rightarrow> s1
       | Some new \<Rightarrow> (let (s2, a) = ensure_list m KRelationships s1 in add_rels_st a new s2))"
    unfolding rel_changes_st_def s1_def Let_def by (rule refl)
  show "read_key (rel_changes_st rc m s) m k' =
           (if k' = KRelationships then apply_rel_changes rc (read_key s m KRelationships) else read_key s m k')"
  proof (cases "rel_add rc")
    case None
    with run have "rel_changes_st rc m s = s1" by simp
    with None removed r1[of k'] show ?thesis
      by (simp add: apply_rel_changes_def Let_def)
  next
    case (Some new)
    with run have e: "rel_changes_st rc m s =
        (let (s2, a) = ensure_list m KRelationships s1 in add_rels_st a new s2)"
      by simp
    show ?thesis
    proof (cases "refs (dicts s1 m) KRelationships")
      case None
      let ?s2 = "bind_new_list m KRelationships [] s1"
      have sep2: "separate ?s2 m" using sep1 by (rule bind_new_list_reads(2))
      have ref2: "refs (dicts ?s2 m) KRelationships = Some (next_addr s1)" by (simp add: bind_new_list_def)
      have l2: "lists ?s2 (next_addr s1) = []" by (simp add: bind_new_list_def)
      have "rel_changes_st rc m s = add_rels_st (next_addr s1) new ?s2"
        using e None by (simp add: ensure_list_def)
      moreover have "read_key (add_rels_st (next_addr s1) new ?s2) m k' =
          (if k' = KRelationships then Some (add_rels [] new) else read_key ?s2 m k')"
        using update_list_reads(1)[OF sep2 ref2, of "add_rels_st (next_addr s1) new ?s2" k']
          add_rels_st_effect[of "next_addr s1" new ?s2] l2
        by simp
      moreover have "read_key ?s2 m k' = (if k' = KRelationships then Some [] else read_key s1 m k')"
        using sep1 by (rule bind_new_list_reads(1))
      moreover have "read_key s1 m KRelationships = None" using None by (simp add: read_key_def)
      ultimately show ?thesis using Some removed r1[of k']
        by (simp add: apply_rel_changes_def Let_def)
    next
      case (Some a)
      note ref1 = this
      have "rel_changes_st rc m s = add_rels_st a new s1"
        using e Some by (simp add: ensure_list_def)
      moreover have "read_key (add_rels_st a new s1) m k' =
          (if k' = KRelationships then Some (add_rels (lists s1 a) new) else read_key s1 m k')"
        using update_list_reads(1)[OF sep1 ref1, of "add_rels_st a new s1" k']
          add_rels_st_effect[of a new s1]
        by simp
      moreover have "read_key s1 m KRelationships = Some (lists s1 a)" using ref1 by (simp add: read_key_def)
      ultimately show ?thesis using \<open>rel_add rc = Some new\<close> removed r1[of k']
        by (simp add: apply_rel_changes_def Let_def)
    qed
  qed
  show "separate (rel_changes_st rc m s) m"
  proof (cases "rel_add rc")
    case None
    with run show ?thesis using sep1 by simp
  next
    case (Some new)
    with run have e: "rel_changes_st rc m s =
        (let (s2, a) = ensure_list m KRelationships s1 in add_rels_st a new s2)"
      by simp
    show ?thesis
    proof (cases "refs (dicts s1 m) KRelationships")
      case None
      have "separate (bind_new_list m KRelationships [] s1) m" using sep1 by (rule bind_new_list_reads(2))
      then show ?thesis using e None add_rels_st_effect[of "next_addr s1" new "bind_new_list m KRelationships [] s1"]
        by (simp add: ensure_list_def separate_def)
    next
      case (Some a)
      then show ?thesis using e sep1 add_rels_st_effect[of a new s1]
        by (simp add: ensure_list_def separate_def)
    qed
  qed
  show "scalars (dicts (rel_changes_st rc m s) m) = scalars (dicts s m)"
    using sc1 add_rels_st_effect
    by (simp add: run Let_def ensure_list_def bind_new_list_def
        split: option.splits prod.splits)
qed

lemma copy_dict_reads:
  assumes "separate s a"
  shows "read_key (fst (copy_dict a s)) (snd (copy_dict a s)) k = read_key s a k"
    and "separate (fst (copy_dict a s)) (snd (copy_dict a s))"
    and "scalars (dicts (fst (copy_dict a s)) (snd (copy_dict a s))) = scalars (dicts s a)"
  using assms by (auto simp: copy_dict_def read_key_def separate_def intro: less_SucI)

lemma section_st_reads:
  assumes "separate s m"
  shows "case snd (section_st sel k cd m s) of
           None \<Rightarrow>
             (case sel cd of
                None \<Rightarrow> Inr (read_key s m k)
              | Some ec \<Rightarrow> apply_entity_changes ec (read_key s m k))
               = Inr (read_key (fst (section_st sel k cd m s)) m k) \<and>
             (\<forall>k'. k' \<noteq> k \<longrightarrow> read_key (fst (section_st sel k cd m s)) m k' = read_key s m k') \<and>
             separate (fst (section_st sel k cd m s)) m \<and>
             scalars (dicts (fst (section_st sel k cd m s)) m) = scalars (dicts s m)
         | Some e \<Rightarrow>
             (case sel cd of
                None \<Rightarrow> Inr (read_key s m k)
              | Some ec \<Rightarrow> apply_entity_changes ec (read_key s m k)) = Inl e"
proof (cases "sel cd")
  case None
  with assms show ?thesis by (simp add: section_st_def)
next
  case (Some ec)
  with entity_changes_st_reads[OF assms, where k = k and ec = ec] show ?thesis
    by (simp add: section_st_def split: option.splits)
qed

text \<open>
  On a store where the argument's lists are separate, the call returns exactly when
  \<open>apply_changes\<close> does on the document read from the argument before the call, the
  document read from the returned dict after the call is the value \<open>apply_changes\<close>
  computes, and the two raise the same exception.
\<close>

lemma apply_changes_st_agrees:
  assumes "separate s current_diagram"
  shows "case snd (apply_changes_st current_diagram chs s) of
           Inr modified \<Rightarrow>
             apply_changes (read_diagram s current_diagram) chs
               = Inr (read_diagram (fst (apply_changes_st current_diagram chs s)) modified)
         | Inl e \<Rightarrow> apply_changes (read_diagram s current_diagram) chs = Inl e"
proof -
  obtain s0 m where c: "copy_dict current_diagram s = (s0, m)" by (cases "copy_dict current_diagram s")
  with copy_dict_reads[OF assms] have k0: "\<And>k. read_key s0 m k = read_key s current_diagram k"
    and sep0: "separate s0 m" and sc0: "scalars (dicts s0 m) = scalars (dicts s current_diagram)"
    by simp_all
  let ?cur = "read_diagram s current_diagram"
  have cur: "classes ?cur = read_key s0 m KClasses" "actors ?cur = read_key s0 m KActors"
    "useCases ?cur = read_key s0 m KUseCases" "relationships ?cur = read_key s0 m KRelationships"
    "other_keys ?cur = scalars (dicts s0 m)"
    by (simp_all add: read_diagram_keys k0 sc0)
  show ?thesis
  proof (cases "changes chs")
    case None
    then show ?thesis
      by (simp add: apply_changes_st_def apply_changes_def c read_diagram_keys k0 sc0)
  next
    case (Some cd)
    define r1 where "r1 = section_st ch_classes KClasses cd m s0"
    define r2 where "r2 = then_st r1 (section_st ch_actors KActors cd m)"
    define r3 where "r3 = then_st r2 (section_st ch_useCases KUseCases cd m)"
    define r4 where "r4 = then_st r3 (\<lambda>s3. (case ch_relationships cd of
                                 None \<Rightarrow> s3
                               | Some rc \<Rightarrow> rel_changes_st rc m s3, None))"
    have res: "apply_changes_st current_diagram chs s =
        (fst r4, case snd r4 of None \<Rightarrow> Inr m | Some e \<Rightarrow> Inl e)"
      unfolding r4_def r3_def r2_def r1_def by (simp add: apply_changes_st_def c Some Let_def)
    define v1 where "v1 = (case ch_classes cd of
                      None \<Rightarrow> Inr ?cur
                    | Some ec \<Rightarrow>
                        and_then (apply_entity_changes ec (classes ?cur))
                          (\<lambda>v. Inr (?cur\<lparr>classes := v\<rparr>)))"
    define step2 where "step2 = (\<lambda>m1::diagram. case ch_actors cd of
                      None \<Rightarrow> Inr m1
                    | Some ec \<Rightarrow>
                        and_then (apply_entity_changes ec (actors m1))
                          (\<lambda>v. Inr (m1\<lparr>actors := v\<rparr>)))"
    define step3 where "step3 = (\<lambda>m2::diagram. case ch_useCases cd of
                      None \<Rightarrow> Inr m2
                    | Some ec \<Rightarrow>
                        and_then (apply_entity_changes ec (useCases m2))
                          (\<lambda>v. Inr (m2\<lparr>useCases := v\<rparr>)))"
    define step4 where "step4 = (\<lambda>m3::diagram. case ch_relationships cd of
                 None \<Rightarrow> m3
               | Some rc \<Rightarrow> m3\<lparr>relationships :=
                   apply_rel_changes rc (relationships m3)\<rparr>)"
    have val: "apply_changes ?cur chs =
        and_then v1 (\<lambda>m1. and_then (step2 m1) (\<lambda>m2. and_then (step3 m2) (\<lambda>m3. Inr (step4 m3))))"
      unfolding v1_def step2_def step3_def step4_def by (simp add: apply_changes_def Some)
    note a1 = section_st_reads[OF sep0, where sel = ch_classes and k = KClasses and cd = cd,
        folded r1_def]
    show ?thesis
    proof (cases "snd r1")
      case (Some e)
      with a1 have "v1 = Inl e"
        by (cases "ch_classes cd") (simp_all add: v1_def cur)
      moreover from Some have "snd r4 = Some e"
        by (simp add: r4_def r3_def r2_def then_st_def)
      ultimately show ?thesis by (simp add: res val)
    next
      case None
      note n1 = this
      let ?s1 = "fst r1"
      let ?d1 = "read_diagram ?s1 m"
      from a1 None have k1: "read_key ?s1 m KActors = read_key s0 m KActors"
        "read_key ?s1 m KUseCases = read_key s0 m KUseCases"
        "read_key ?s1 m KRelationships = read_key s0 m KRelationships"
        and sep1: "separate ?s1 m" and sc1: "scalars (dicts ?s1 m) = scalars (dicts s0 m)"
        and c1: "(case ch_classes cd of None \<Rightarrow> Inr (read_key s0 m KClasses)
             | Some ec \<Rightarrow> apply_entity_changes ec (read_key s0 m KClasses))
            = Inr (read_key ?s1 m KClasses)"
        by simp_all
      have v1: "v1 = Inr ?d1"
        using c1 k1 sc1
        by (cases "ch_classes cd") (auto simp: v1_def read_diagram_keys k0 sc0)
      have run2: "r2 = section_st ch_actors KActors cd m ?s1"
        using n1 by (simp add: r2_def then_st_def)
      note a2 = section_st_reads[OF sep1, where sel = ch_actors and k = KActors and cd = cd,
          folded run2]
      show ?thesis
      proof (cases "snd r2")
        case (Some e)
        with a2 have "step2 ?d1 = Inl e"
          by (cases "ch_actors cd") (simp_all add: step2_def read_diagram_keys)
        moreover from Some have "snd r4 = Some e"
          by (simp add: r4_def r3_def then_st_def)
        ultimately show ?thesis by (simp add: res val v1)
      next
        case None
        note n2 = this
        let ?s2 = "fst r2"
        let ?d2 = "read_diagram ?s2 m"
        from a2 None have k2: "read_key ?s2 m KClasses = read_key ?s1 m KClasses"
          "read_key ?s2 m KUseCases = read_key ?s1 m KUseCases"
          "read_key ?s2 m KRelationships = read_key ?s1 m KRelationships"
          and sep2: "separate ?s2 m" and sc2: "scalars (dicts ?s2 m) = scalars (dicts ?s1 m)"
          and c2: "(case ch_actors cd of None \<Rightarrow> Inr (read_key ?s1 m KActors)
               | Some ec \<Rightarrow> apply_entity_changes ec (read_key ?s1 m KActors))
              = Inr (read_key ?s2 m KActors)"
          by simp_all
        have v2: "step2 ?d1 = Inr ?d2"
          using c2 k2 sc2
          by (cases "ch_actors cd") (auto simp: step2_def read_diagram_keys)
        have run3: "r3 = section_st ch_useCases KUseCases cd m ?s2"
          using n2 by (simp add: r3_def then_st_def)
        note a3 = section_st_reads[OF sep2, where sel = ch_useCases and k = KUseCases and cd = cd,
            folded run3]
        show ?thesis
        proof (cases "snd r3")
          case (Some e)
          with a3 have "step3 ?d2 = Inl e"
            by (cases "ch_useCases cd") (simp_all add: step3_def read_diagram_keys)
          moreover from Some have "snd r4 = Some e"
            by (simp add: r4_def then_st_def)
          ultimately show ?thesis by (simp add: res val v1 v2)
        next
          case None
          let ?s3 = "fst r3"
          let ?d3 = "read_diagram ?s3 m"
          from a3 None have k3: "read_key ?s3 m KClasses = read_key ?s2 m KClasses"
            "read_key ?s3 m KActors = read_key ?s2 m KActors"
            "read_key ?s3 m KRelationships = read_key ?s2 m KRelationships"
            and sep3: "separate ?s3 m" and sc3: "scalars (dicts ?s3 m) = scalars (dicts ?s2 m)"
            and c3: "(case ch_useCases cd of None \<Rightarrow> Inr (read_key ?s2 m KUseCases)
                 | Some ec \<Rightarrow> apply_entity_changes ec (read_key ?s2 m KUseCases))
                = Inr (read_key ?s3 m KUseCases)"
            by simp_all
          have v3: "step3 ?d2 = Inr ?d3"
            using c3 k3 sc3
            by (cases "ch_useCases cd") (auto simp: step3_def read_diagram_keys)
          have run4: "r4 = (case ch_relationships cd of
                                 None \<Rightarrow> ?s3
                               | Some rc \<Rightarrow> rel_changes_st rc m ?s3, None)"
            using None by (simp add: r4_def then_st_def)
          have v4: "step4 ?d3 = read_diagram (fst r4) m"
          proof (cases "ch_relationships cd")
            case None
            then show ?thesis by (simp add: step4_def run4)
          next
            case (Some rc)
            with rel_changes_st_reads[OF sep3, of rc] show ?thesis
              by (simp add: step4_def run4 read_diagram_keys)
          qed
          show ?thesis by (simp add: res val v1 v2 v3 v4 run4)
        qed
      qed
    qed
  qed
qed

text \<open>Whenever the call returns, the returned dict is a newly allocated object.\<close>

lemma returned_dict_is_new:
  "snd (apply_changes_st current_diagram chs s) = Inr modified \<Longrightarrow> modified = next_addr s"
  by (auto simp: apply_changes_st_def copy_dict_def Let_def split: option.splits)

lemma no_envelope_no_write:
  assumes "changes chs = None"
  shows "lists (fst (apply_changes_st current_diagram chs s)) = lists s"
  using assms by (simp add: apply_changes_st_def copy_dict_def)

section \<open>Properties of the file system model\<close>

subsection \<open>Resolving paths\<close>

lemma split_path_nonempty: "split_path p \<noteq> []"
  by (induction p) (auto split: list.splits)

lemma split_path_plain: "CHR ''/'' \<notin> set n \<Longrightarrow> split_path n = [n]"
  by (induction n) auto

lemma split_path_append: "split_path (d @ CHR ''/'' # n) = split_path d @ split_path n"
proof (induction d)
  case Nil
  show ?case by simp
next
  case (Cons c cs)
  obtain w ws where "split_path cs = w # ws"
    using split_path_nonempty[of cs] by (cases "split_path cs") auto
  with Cons show ?case by simp
qed

lemma split_path_child:
  "CHR ''/'' \<notin> set n \<Longrightarrow> split_path (d @ CHR ''/'' # n) = split_path d @ [n]"
  by (simp add: split_path_append split_path_plain)

lemma walk_append:
  "walk fs loc (xs @ ys) = (case walk fs loc xs of None \<Rightarrow> None | Some l \<Rightarrow> walk fs l ys)"
  by (induction xs arbitrary: loc) auto

lemma walk_name:
  "is_dir_at fs loc \<Longrightarrow> n \<noteq> [] \<Longrightarrow> n \<noteq> ''.'' \<Longrightarrow> n \<noteq> ''..'' \<Longrightarrow> walk fs loc [n] = Some (loc @ [n])"
  by simp

lemma walk_dot: "is_dir_at fs loc \<Longrightarrow> walk fs loc [''.''] = Some loc"
  by simp

lemma is_dir_at_cong: "map_of fs' = map_of fs \<Longrightarrow> is_dir_at fs' loc = is_dir_at fs loc"
  by (simp add: is_dir_at_def)

lemma walk_cong:
  assumes "\<And>l. is_dir_at fs' l = is_dir_at fs l"
  shows "walk fs' loc cs = walk fs loc cs"
  by (induction cs arbitrary: loc) (simp_all add: assms)

lemma node_at_cong: "map_of fs' = map_of fs \<Longrightarrow> node_at fs' p = node_at fs p"
  using walk_cong[of fs' fs, OF is_dir_at_cong]
  by (simp add: node_at_def locate_def split: option.splits)


lemma isdir_locate:
  assumes "isdir fs d"
  shows "\<exists>loc. locate fs d = Some loc \<and> is_dir_at fs loc"
  using assms
  by (auto simp: isdir_def node_at_def is_dir_at_def split: option.splits if_splits node.splits)

lemma locate_isdir: "locate fs d = Some loc \<Longrightarrow> is_dir_at fs loc \<Longrightarrow> isdir fs d"
  by (auto simp: isdir_def node_at_def is_dir_at_def)


lemma dot_is_the_directory:
  assumes "isdir fs d"
  shows "isdir fs (d @ ''/'' @ ''.'')"
proof -
  from isdir_locate[OF assms] obtain loc where loc: "locate fs d = Some loc" "is_dir_at fs loc"
    by blast
  then have w: "walk fs [] (split_path d) = Some loc"
    by (simp add: locate_def split: if_splits)
  have "split_path (d @ CHR ''/'' # ''.'') = split_path d @ [''.'']"
    by (rule split_path_child) simp
  moreover have "walk fs [] (split_path d @ [''.'']) = Some loc"
    using loc(2) by (simp only: walk_append w option.case walk_dot)
  ultimately have "locate fs (d @ ''/'' @ ''.'') = Some loc"
    by (simp add: locate_def)
  from this loc(2) show ?thesis by (rule locate_isdir)
qed

subsection \<open>Writing a file\<close>

lemma map_of_fs_put:
  "map_of (fs_put k n fs) q = (if q = k then Some n else map_of fs q)"
proof (cases "map_of fs k = None")
  case False
  have "map_of (map (\<lambda>(q, m). if q = k then (q, n) else (q, m)) fs) q =
        (if q = k \<and> map_of fs k \<noteq> None then Some n else map_of fs q)"
    by (induction fs) auto
  with False show ?thesis by (simp add: fs_put_def)
next
  case True
  then show ?thesis by (auto simp: fs_put_def map_add_def split: option.splits)
qed

lemma is_dir_at_fs_put_file:
  assumes "map_of fs k \<noteq> Some Dir"
  shows "is_dir_at (fs_put k (File text c m) fs) loc = is_dir_at fs loc"
  using assms by (auto simp: is_dir_at_def map_of_fs_put)

lemma walk_fs_put_file:
  assumes "map_of fs k \<noteq> Some Dir"
  shows "walk (fs_put k (File text c m) fs) loc cs = walk fs loc cs"
  by (rule walk_cong) (rule is_dir_at_fs_put_file[OF assms])

lemma node_at_fs_put_file:
  assumes "map_of fs k \<noteq> Some Dir"
  shows "node_at (fs_put k (File text c m) fs) p =
     (case locate fs p of
        None \<Rightarrow> None
      | Some loc \<Rightarrow> if loc = [] then Some Dir
                    else if key_of loc = k then Some (File text c m)
                    else map_of fs (key_of loc))"
  by (simp add: node_at_def locate_def walk_fs_put_file[OF assms] map_of_fs_put
      split: option.splits)



lemma entry_target_locate:
  assumes "entry_target fs p = Some k"
  shows "\<exists>loc. locate fs p = Some loc \<and> loc \<noteq> [] \<and> key_of loc = k"
proof -
  from assms have ne: "p \<noteq> []" by (auto simp: entry_target_def)
  from assms ne obtain loc where loc: "walk fs [] (butlast (split_path p)) = Some loc"
    "is_dir_at fs loc" "last (split_path p) \<noteq> []" "last (split_path p) \<noteq> ''.''"
    "last (split_path p) \<noteq> ''..''" "k = key_of (loc @ [last (split_path p)])"
    by (auto simp: entry_target_def Let_def split: option.splits if_splits)
  have "split_path p = butlast (split_path p) @ [last (split_path p)]"
    using split_path_nonempty[of p] by simp
  then have "walk fs [] (split_path p) =
      walk fs [] (butlast (split_path p) @ [last (split_path p)])"
    by simp
  also have "\<dots> = walk fs loc [last (split_path p)]"
    by (simp only: walk_append loc(1) option.case)
  also have "\<dots> = Some (loc @ [last (split_path p)])"
    using loc(2-5) by (rule walk_name)
  finally show ?thesis using ne loc(6) by (simp add: locate_def)
qed

lemma write_file_effect:
  assumes "write_file now p text fs = Some fs'"
  shows "\<exists>k c. entry_target fs p = Some k \<and> map_of fs k \<noteq> Some Dir \<and>
           fs' = fs_put k (File text c now) fs \<and>
           (map_of fs k = None \<longrightarrow> c = now) \<and>
           node_at fs' p = Some (File text c now)"
proof -
  from assms obtain k c where k: "entry_target fs p = Some k" "map_of fs k \<noteq> Some Dir"
    "fs' = fs_put k (File text c now) fs" "map_of fs k = None \<longrightarrow> c = now"
    by (auto simp: write_file_def split: option.splits node.splits)
  from entry_target_locate[OF k(1)] obtain loc where
    "locate fs p = Some loc" "loc \<noteq> []" "key_of loc = k"
    by blast
  then have "node_at fs' p = Some (File text c now)"
    unfolding k(3) by (simp add: node_at_fs_put_file[OF k(2)])
  with k show ?thesis by auto
qed

lemma write_file_read_back:
  "write_file now p text fs = Some fs' \<Longrightarrow> read_text fs' p = Some text"
  by (auto simp: read_text_def dest!: write_file_effect)

section \<open>Properties of the project store\<close>

subsection \<open>The context's image lists\<close>

text \<open>
  Claim C9, as stated, after a rescan of a project whose processed directory holds
  \<open>logo.gif\<close>: the record of the file has type \<open>image\<close>, and both image lists of the
  context are empty.
\<close>

theorem gif_is_image_but_not_listed:
  "map type (processed_bucket (files (state_after (scan_and_update_files 5
      (demo_dirs @ [(''/w/Demo_abc12345/processed/logo.gif'', File ''gif'' 2 3)]) demo_project))))
     = [''image''] \<and>
   ui_image (pcontext (state_after (scan_and_update_files 5
      (demo_dirs @ [(''/w/Demo_abc12345/processed/logo.gif'', File ''gif'' 2 3)]) demo_project)))
     = [] \<and>
   diagram_image (pcontext (state_after (scan_and_update_files 5
      (demo_dirs @ [(''/w/Demo_abc12345/processed/logo.gif'', File ''gif'' 2 3)]) demo_project)))
     = []"
  by code_simp

text \<open>
  Claim C9, amended. After \<open>update_from_project\<close>, \<open>ui_image\<close> is the list, in bucket
  order, of the paths of the processed-bucket records whose path ends, case ignored, in
  \<open>.png\<close>, \<open>.jpg\<close> or \<open>.jpeg\<close>, and \<open>diagram_image\<close> is the same list.
\<close>

theorem context_images_are_png_and_jpeg:
  "ui_image (pcontext (update_from_project fs p)) =
     map path (filter (\<lambda>file. endswith (lower (path file)) ''.png'' \<or>
                             endswith (lower (path file)) ''.jpg'' \<or>
                             endswith (lower (path file)) ''.jpeg'')
                 (processed_bucket (files p))) \<and>
   diagram_image (pcontext (update_from_project fs p)) =
     ui_image (pcontext (update_from_project fs p))"
  by (simp add: update_from_project_def get_image_dirs_def Let_def)

subsection \<open>Saving and loading the metadata\<close>

lemma update_from_project_fields [simp]:
  "pname (update_from_project fs p) = pname p"
  "id (update_from_project fs p) = id p"
  "created_date (update_from_project fs p) = created_date p"
  "pmodified_date (update_from_project fs p) = pmodified_date p"
  "base_dir (update_from_project fs p) = base_dir p"
  "description (update_from_project fs p) = description p"
  "tags (update_from_project fs p) = tags p"
  "files (update_from_project fs p) = files p"
  "processing_history (update_from_project fs p) = processing_history p"
  "requirements (pcontext (update_from_project fs p)) = requirements (pcontext p)"
  "tech_stack (pcontext (update_from_project fs p)) = tech_stack (pcontext p)"
  "generated_text_doc (pcontext (update_from_project fs p)) = generated_text_doc (pcontext p)"
  "generated_diagram (pcontext (update_from_project fs p)) = generated_diagram (pcontext p)"
  "prototype_code (pcontext (update_from_project fs p)) = prototype_code (pcontext p)"
  by (simp_all add: update_from_project_def Let_def)

lemma to_dict_fields:
  "md_name (to_dict lib p) = Some (pname p)"
  "md_id (to_dict lib p) = Some (id p)"
  "md_created_date (to_dict lib p) = Some (isoformat lib (created_date p))"
  "md_modified_date (to_dict lib p) = Some (isoformat lib (pmodified_date p))"
  "md_description (to_dict lib p) = Some (description p)"
  "md_tags (to_dict lib p) = Some (tags p)"
  "md_files (to_dict lib p) = Some (files p)"
  "md_processing_history (to_dict lib p) = Some (processing_history p)"
  "md_tech_stack (to_dict lib p) = Some (tech_stack (pcontext p))"
  "\<exists>dirs. md_directories (to_dict lib p) = Some dirs \<and> map_of dirs ''base'' = Some (base_dir p)"
  "\<exists>req_data. md_requirements (to_dict lib p) = Some req_data \<and>
     restore_requirements req_data = requirements (pcontext p)"
  by (simp_all add: to_dict_def restore_requirements_def)

text \<open>
  Claim C5. When \<open>save_metadata\<close> has written the metadata file, and the library reads
  back the JSON text and the two ISO dates it wrote for this project,
  \<open>load_from_metadata\<close> on that file returns a project with the same name, id, created
  and modified date, description, tags, files, processing history, requirements and
  tech stack; the generated-content caches of its context are empty.
\<close>

theorem metadata_round_trip:
  assumes saved: "save_metadata lib now fs p = (fs', True)"
    and json: "json_loads lib (json_dumps lib (to_dict lib p)) = Some (to_dict lib p)"
    and created: "fromisoformat lib (isoformat lib (created_date p)) = Some (created_date p)"
    and modified: "fromisoformat lib (isoformat lib (pmodified_date p)) = Some (pmodified_date p)"
  shows "\<exists>q. load_from_metadata lib now' fs' (path_join (project_dir p) ''project_metadata.json'')
            = Some q \<and>
     pname q = pname p \<and> id q = id p \<and>
     created_date q = created_date p \<and> pmodified_date q = pmodified_date p \<and>
     description q = description p \<and> tags q = tags p \<and> files q = files p \<and>
     processing_history q = processing_history p \<and>
     requirements (pcontext q) = requirements (pcontext p) \<and>
     tech_stack (pcontext q) = tech_stack (pcontext p) \<and>
     generated_text_doc (pcontext q) = [] \<and> generated_diagram (pcontext q) = [] \<and>
     prototype_code (pcontext q) = []"
proof -
  let ?path = "path_join (project_dir p) ''project_metadata.json''"
  from saved have "write_file now ?path (json_dumps lib (to_dict lib p)) fs = Some fs'"
    by (auto simp: save_metadata_def split: option.splits)
  then have readback: "read_text fs' ?path = Some (json_dumps lib (to_dict lib p))"
    by (rule write_file_read_back)
  obtain dirs where dirs: "md_directories (to_dict lib p) = Some dirs"
    "map_of dirs ''base'' = Some (base_dir p)"
    using to_dict_fields(10) by blast
  obtain req_data where req: "md_requirements (to_dict lib p) = Some req_data"
    "restore_requirements req_data = requirements (pcontext p)"
    using to_dict_fields(11) by blast
  show ?thesis
    unfolding load_from_metadata_def
    by (simp add: readback json created modified to_dict_fields(1-9) dirs req Let_def
        init_project_def new_context_def)
qed

lemma demo_to_dict: "to_dict demo_lib demo_with_files = to_dict demo_dates demo_with_files"
  by (simp add: to_dict_def demo_lib_def)

text \<open>
  The spec's example: project "Demo", id "abc12345", two input files, requirements with
  the feature \<open>auth: OAuth2\<close>, and prototype code in the context, which does not come
  back.
\<close>

theorem metadata_round_trip_witness:
  "save_metadata demo_lib 9 demo_dirs demo_with_files =
     (demo_dirs @ [(''/w/Demo_abc12345/project_metadata.json'', File ''demo'' 9 9)], True) \<and>
   json_loads demo_lib (json_dumps demo_lib (to_dict demo_lib demo_with_files))
     = Some (to_dict demo_lib demo_with_files) \<and>
   fromisoformat demo_lib (isoformat demo_lib (created_date demo_with_files))
     = Some (created_date demo_with_files) \<and>
   fromisoformat demo_lib (isoformat demo_lib (pmodified_date demo_with_files))
     = Some (pmodified_date demo_with_files) \<and>
   (\<exists>q. load_from_metadata demo_lib 20
          (demo_dirs @ [(''/w/Demo_abc12345/project_metadata.json'', File ''demo'' 9 9)])
          (path_join (project_dir demo_with_files) ''project_metadata.json'') = Some q \<and>
        pname q = pname demo_with_files \<and> files q = files demo_with_files \<and>
        requirements (pcontext q) = requirements (pcontext demo_with_files) \<and>
        prototype_code (pcontext q) = [])"
proof -
  have saved: "save_metadata demo_lib 9 demo_dirs demo_with_files =
     (demo_dirs @ [(''/w/Demo_abc12345/project_metadata.json'', File ''demo'' 9 9)], True)"
    by code_simp
  have json: "json_loads demo_lib (json_dumps demo_lib (to_dict demo_lib demo_with_files))
     = Some (to_dict demo_lib demo_with_files)"
    by (simp add: demo_to_dict) (simp add: demo_lib_def)
  have created: "fromisoformat demo_lib (isoformat demo_lib (created_date demo_with_files))
     = Some (created_date demo_with_files)"
    by (simp add: demo_lib_def demo_dates_def demo_with_files_def demo_project_def
        show_nat.simps digit_char_def)
  have modified: "fromisoformat demo_lib (isoformat demo_lib (pmodified_date demo_with_files))
     = Some (pmodified_date demo_with_files)"
    by (simp add: demo_lib_def demo_dates_def demo_with_files_def demo_project_def
        show_nat.simps digit_char_def)
  from metadata_round_trip [OF saved json created modified, of 20]
  obtain q where "load_from_metadata demo_lib 20
          (demo_dirs @ [(''/w/Demo_abc12345/project_metadata.json'', File ''demo'' 9 9)])
          (path_join (project_dir demo_with_files) ''project_metadata.json'') = Some q"
    "pname q = pname demo_with_files" "files q = files demo_with_files"
    "requirements (pcontext q) = requirements (pcontext demo_with_files)"
    "prototype_code (pcontext q) = []"
    by blast
  with saved json created modified show ?thesis by blast
qed

subsection \<open>Renaming onto an existing name\<close>

text \<open>
  Claim C6, as stated, for a record whose file is no longer on disk: the project tracks
  \<open>a.txt\<close> in the output bucket, the output directory holds only \<open>b.txt\<close>. Renaming
  \<open>a.txt\<close> to \<open>b.txt\<close> leaves the file system as it is, but the rescan that the missing
  file triggers has replaced the records of the bucket: the record of \<open>a.txt\<close> is gone.
\<close>

theorem rename_with_stale_record_rescans:
  "bucket_files ''output'' demo_tracking_a = Some [file_named ''/w/Demo_abc12345/output'' ''a.txt''] \<and>
   path_exists (demo_dirs @ [(''/w/Demo_abc12345/output/b.txt'', File ''b'' 2 3)])
     (path_join ''/w/Demo_abc12345/output'' ''b.txt'') \<and>
   fst (rename_file 9 (demo_dirs @ [(''/w/Demo_abc12345/output/b.txt'', File ''b'' 2 3)])
       demo_tracking_a ''a.txt'' ''b.txt'' ''output'')
     = demo_dirs @ [(''/w/Demo_abc12345/output/b.txt'', File ''b'' 2 3)] \<and>
   map name (output_bucket (files (state_after (snd
     (rename_file 9 (demo_dirs @ [(''/w/Demo_abc12345/output/b.txt'', File ''b'' 2 3)])
       demo_tracking_a ''a.txt'' ''b.txt'' ''output'')))))
     = [''b.txt'']"
  by code_simp

text \<open>
  Claim C6, amended. When the first record named \<open>file_name\<close> in the bucket has its file
  on disk and the bucket directory already has an entry \<open>new_name\<close>, \<open>rename_file\<close>
  returns \<open>False\<close> and leaves the file system and the whole project as they were.
\<close>

theorem rename_to_existing_name_rejected:
  assumes "bucket_files file_type p = Some tracked"
    and "find (\<lambda>f. name f = file_name) tracked = Some file_info"
    and "path_exists fs (path file_info)"
    and "dest_dir_map p file_type = Some dest_dir"
    and "path_exists fs (path_join dest_dir new_name)"
  shows "rename_file now fs p file_name new_name file_type = (fs, Returned p False)"
  using assms by (simp add: rename_file_def Let_def)

theorem rename_to_existing_name_rejected_witness:
  "bucket_files ''output'' demo_tracking_a = Some [file_named ''/w/Demo_abc12345/output'' ''a.txt''] \<and>
   find (\<lambda>f. name f = ''a.txt'') [file_named ''/w/Demo_abc12345/output'' ''a.txt'']
     = Some (file_named ''/w/Demo_abc12345/output'' ''a.txt'') \<and>
   path_exists (demo_dirs @ [(''/w/Demo_abc12345/output/a.txt'', File ''a'' 2 3),
                             (''/w/Demo_abc12345/output/b.txt'', File ''b'' 2 3)])
     (path (file_named ''/w/Demo_abc12345/output'' ''a.txt'')) \<and>
   dest_dir_map demo_tracking_a ''output'' = Some ''/w/Demo_abc12345/output'' \<and>
   path_exists (demo_dirs @ [(''/w/Demo_abc12345/output/a.txt'', File ''a'' 2 3),
                             (''/w/Demo_abc12345/output/b.txt'', File ''b'' 2 3)])
     (path_join ''/w/Demo_abc12345/output'' ''b.txt'') \<and>
   rename_file 9 (demo_dirs @ [(''/w/Demo_abc12345/output/a.txt'', File ''a'' 2 3),
                               (''/w/Demo_abc12345/output/b.txt'', File ''b'' 2 3)])
       demo_tracking_a ''a.txt'' ''b.txt'' ''output''
     = (demo_dirs @ [(''/w/Demo_abc12345/output/a.txt'', File ''a'' 2 3),
                     (''/w/Demo_abc12345/output/b.txt'', File ''b'' 2 3)],
        Returned demo_tracking_a False)"
proof -
  let ?fs = "demo_dirs @ [(''/w/Demo_abc12345/output/a.txt'', File ''a'' 2 3),
                          (''/w/Demo_abc12345/output/b.txt'', File ''b'' 2 3)]"
  have h1: "bucket_files ''output'' demo_tracking_a
      = Some [file_named ''/w/Demo_abc12345/output'' ''a.txt'']"
    by code_simp
  have h2: "find (\<lambda>f. name f = ''a.txt'') [file_named ''/w/Demo_abc12345/output'' ''a.txt'']
      = Some (file_named ''/w/Demo_abc12345/output'' ''a.txt'')"
    by code_simp
  have h3: "path_exists ?fs (path (file_named ''/w/Demo_abc12345/output'' ''a.txt''))"
    by code_simp
  have h4: "dest_dir_map demo_tracking_a ''output'' = Some ''/w/Demo_abc12345/output''"
    by code_simp
  have h5: "path_exists ?fs (path_join ''/w/Demo_abc12345/output'' ''b.txt'')"
    by code_simp
  from rename_to_existing_name_rejected[OF h1 h2 h3 h4 h5, of 9]
  have "rename_file 9 ?fs demo_tracking_a ''a.txt'' ''b.txt'' ''output''
      = (?fs, Returned demo_tracking_a False)" .
  with h1 h2 h3 h4 h5 show ?thesis by simp
qed

subsection \<open>Rescanning\<close>

lemma entry_name_Some:
  assumes "entry_name d p = Some n"
  shows "p = d @ ''/'' @ n \<and> n \<noteq> [] \<and> CHR ''/'' \<notin> set n"
proof -
  let ?k = "length (d @ ''/'')"
  from assms have t: "take ?k p = d @ ''/''" and n: "drop ?k p = n"
    and ne: "n \<noteq> []" "CHR ''/'' \<notin> set n"
    by (auto simp: entry_name_def Let_def split: if_splits)
  have "take ?k p @ drop ?k p = p" by (rule append_take_drop_id)
  then have "(d @ ''/'') @ n = p" by (simp only: t n)
  with ne show ?thesis by simp
qed

lemma set_map_filter_Some: "set (List.map_filter f xs) = {y. \<exists>x\<in>set xs. f x = Some y}"
  by (induction xs) (auto split: option.splits)

lemma distinct_map_filter_inj:
  "distinct xs \<Longrightarrow> (\<And>x y z. f x = Some z \<Longrightarrow> f y = Some z \<Longrightarrow> x = y) \<Longrightarrow>
   distinct (List.map_filter f xs)"
proof (induction xs)
  case Nil
  show ?case by simp
next
  case (Cons x xs)
  then have IH: "distinct (List.map_filter f xs)" by simp
  show ?case
  proof (cases "f x")
    case None
    with IH show ?thesis by simp
  next
    case (Some z)
    have "z \<notin> set (List.map_filter f xs)"
    proof
      assume "z \<in> set (List.map_filter f xs)"
      then obtain y where "y \<in> set xs" "f y = Some z"
        by (auto simp: set_map_filter_Some)
      with Some Cons.prems(2) have "x = y" by blast
      with \<open>y \<in> set xs\<close> Cons.prems(1) show False by simp
    qed
    with IH Some show ?thesis by simp
  qed
qed

lemma mset_map_filter: "mset xs = mset ys \<Longrightarrow> mset (List.map_filter f xs) = mset (List.map_filter f ys)"
  by (simp add: List.map_filter_def)

lemma path_join_plain:
  "n \<noteq> [] \<Longrightarrow> CHR ''/'' \<notin> set n \<Longrightarrow>
   path_join d n = (if d = [] \<or> last d = CHR ''/'' then d @ n else d @ ''/'' @ n)"
  by (cases n) (auto simp: path_join_def)

lemma path_join_inj:
  "n \<noteq> [] \<Longrightarrow> CHR ''/'' \<notin> set n \<Longrightarrow> m \<noteq> [] \<Longrightarrow> CHR ''/'' \<notin> set m \<Longrightarrow>
   path_join d n = path_join d m \<Longrightarrow> n = m"
  by (simp add: path_join_plain split: if_splits)

lemma scan_entries_step_wanted:
  "wanted fs d n \<Longrightarrow> \<not> list_ex (\<lambda>f. path f = path_join d n) acc \<Longrightarrow>
   scan_entries fs d (n # ns) acc =
     scan_entries fs d ns (acc @ [new_file_record fs (path_join d n) n])"
  by (simp add: wanted_def Let_def)

lemma scan_entries_step_unwanted:
  "\<not> wanted fs d n \<Longrightarrow> scan_entries fs d (n # ns) acc = scan_entries fs d ns acc"
  by (simp add: wanted_def Let_def)

lemma scan_entries_distinct:
  assumes "distinct ns" and "\<forall>n\<in>set ns. n \<noteq> [] \<and> CHR ''/'' \<notin> set n"
    and "\<forall>f\<in>set acc. path f \<notin> path_join d ` set ns"
  shows "scan_entries fs d ns acc =
     acc @ map (\<lambda>n. new_file_record fs (path_join d n) n) (filter (wanted fs d) ns)"
  using assms
proof (induction ns arbitrary: acc)
  case Nil
  show ?case by simp
next
  case (Cons n ns)
  from Cons.prems(1) have dist: "distinct ns" and n_new: "n \<notin> set ns" by simp_all
  from Cons.prems(2) have plain: "\<forall>m\<in>set ns. m \<noteq> [] \<and> CHR ''/'' \<notin> set m"
    and n_plain: "n \<noteq> []" "CHR ''/'' \<notin> set n" by simp_all
  from Cons.prems(3) have acc_n: "\<forall>f\<in>set acc. path f \<noteq> path_join d n"
    and acc_ns: "\<forall>f\<in>set acc. path f \<notin> path_join d ` set ns" by auto
  have fresh: "\<not> list_ex (\<lambda>f. path f = path_join d n) acc"
    using acc_n by (simp add: list_ex_iff)
  let ?mk = "\<lambda>n. new_file_record fs (path_join d n) n"
  show ?case
  proof (cases "wanted fs d n")
    case True
    have r_path: "path (?mk n) = path_join d n" by (simp add: new_file_record_def)
    have "path_join d n \<notin> path_join d ` set ns"
    proof
      assume "path_join d n \<in> path_join d ` set ns"
      then obtain m where m: "m \<in> set ns" "path_join d n = path_join d m" by blast
      from plain m(1) have m_plain: "m \<noteq> []" "CHR ''/'' \<notin> set m" by simp_all
      from n_plain m_plain m(2) have "n = m" by (rule path_join_inj)
      with m(1) n_new show False by simp
    qed
    with acc_ns r_path have ok: "\<forall>f\<in>set (acc @ [?mk n]). path f \<notin> path_join d ` set ns"
      by simp
    have "scan_entries fs d (n # ns) acc = scan_entries fs d ns (acc @ [?mk n])"
      using True fresh by (rule scan_entries_step_wanted)
    also have "\<dots> = (acc @ [?mk n]) @ map ?mk (filter (wanted fs d) ns)"
      using dist plain ok by (rule Cons.IH)
    also have "\<dots> = acc @ map ?mk (filter (wanted fs d) (n # ns))"
      using True by simp
    finally show ?thesis .
  next
    case False
    have "scan_entries fs d (n # ns) acc = scan_entries fs d ns acc"
      using False by (rule scan_entries_step_unwanted)
    also have "\<dots> = acc @ map ?mk (filter (wanted fs d) ns)"
      using dist plain acc_ns by (rule Cons.IH)
    also have "\<dots> = acc @ map ?mk (filter (wanted fs d) (n # ns))"
      using False by simp
    finally show ?thesis .
  qed
qed

lemma sort_key_reorder:
  assumes "mset xs = mset ys" and "inj_on f (set xs)"
  shows "sort_key f xs = sort_key f ys"
proof (rule sort_key_inj_key_eq)
  show "mset xs = mset (sort_key f ys)" using assms(1) by simp
  show "inj_on f (set xs)" by fact
  show "sorted (map f (sort_key f ys))" by simp
qed

lemma scan_names_reorder:
  assumes perm: "mset fs' = mset fs" and dist: "distinct (map fst fs)"
  shows "map_of fs' = map_of fs"
    and "sort_key name (scan_entries fs' d (List.map_filter (entry_name kd) (map fst fs')) [])
       = sort_key name (scan_entries fs d (List.map_filter (entry_name kd) (map fst fs)) [])"
proof -
  from perm have "mset (map fst fs') = mset (map fst fs)" by simp
  with dist have dist': "distinct (map fst fs')" by (metis mset_eq_imp_distinct_iff)
  from perm have "set fs' = set fs" by (rule mset_eq_setD)
  with dist dist' show maps: "map_of fs' = map_of fs" by (simp add: map_of_inject_set)
  let ?ns = "List.map_filter (entry_name kd) (map fst fs)"
  let ?ns' = "List.map_filter (entry_name kd) (map fst fs')"
  have inj: "\<And>x y z. entry_name kd x = Some z \<Longrightarrow> entry_name kd y = Some z \<Longrightarrow> x = y"
    by (auto dest!: entry_name_Some)
  have dns: "distinct ?ns" using dist inj by (rule distinct_map_filter_inj)
  have dns': "distinct ?ns'" using dist' inj by (rule distinct_map_filter_inj)
  have plain: "\<forall>n\<in>set ?ns. n \<noteq> [] \<and> CHR ''/'' \<notin> set n"
    by (auto simp: set_map_filter_Some dest!: entry_name_Some)
  have plain': "\<forall>n\<in>set ?ns'. n \<noteq> [] \<and> CHR ''/'' \<notin> set n"
    by (auto simp: set_map_filter_Some dest!: entry_name_Some)
  have mns: "mset ?ns' = mset ?ns"
    using perm by (intro mset_map_filter) simp
  let ?mk = "\<lambda>n. new_file_record fs (path_join d n) n"
  have same_mk: "new_file_record fs' = new_file_record fs"
    by (intro ext) (simp add: new_file_record_def node_at_cong[OF maps])
  have same_wanted: "wanted fs' d = wanted fs d"
    by (intro ext) (simp add: wanted_def isfile_def node_at_cong[OF maps])
  have e: "scan_entries fs d ?ns [] = map ?mk (filter (wanted fs d) ?ns)"
    using scan_entries_distinct[OF dns plain, of "[]" d fs] by simp
  have e': "scan_entries fs' d ?ns' [] = map ?mk (filter (wanted fs d) ?ns')"
    using scan_entries_distinct[OF dns' plain', of "[]" d fs'] by (simp add: same_mk same_wanted)
  have "mset (map ?mk (filter (wanted fs d) ?ns')) = mset (map ?mk (filter (wanted fs d) ?ns))"
    using mns by simp
  moreover have "inj_on name (set (map ?mk (filter (wanted fs d) ?ns')))"
    by (auto simp: inj_on_def new_file_record_def)
  ultimately show "sort_key name (scan_entries fs' d ?ns' []) = sort_key name (scan_entries fs d ?ns [])"
    unfolding e e' by (rule sort_key_reorder)
qed

lemma scan_bucket_reorder:
  assumes perm: "mset fs' = mset fs" and dist: "distinct (map fst fs)"
  shows "scan_bucket fs' d = scan_bucket fs d"
proof -
  note maps = scan_names_reorder(1)[OF assms]
  have loc: "locate fs' d = locate fs d"
    using walk_cong[of fs' fs, OF is_dir_at_cong[OF maps]] by (simp add: locate_def)
  have ex: "path_exists fs' d = path_exists fs d"
    by (simp add: path_exists_def node_at_cong[OF maps])
  show ?thesis
  proof (cases "locate fs d")
    case None
    with loc ex show ?thesis by (simp add: scan_bucket_def listdir_def)
  next
    case (Some l)
    with loc ex scan_names_reorder(2)[OF assms, of d "key_of l"] show ?thesis
      by (simp add: scan_bucket_def listdir_def is_dir_at_cong[OF maps])
  qed
qed

lemma files_after_scan:
  "files (state_after (scan_and_update_files now fs p)) =
     (case scan_bucket fs (input_dir p) of
        None \<Rightarrow> \<lparr>input_bucket = [], processed_bucket = [], output_bucket = []\<rparr>
      | Some fi \<Rightarrow>
     (case scan_bucket fs (processed_dir p) of
        None \<Rightarrow> \<lparr>input_bucket = fi, processed_bucket = [], output_bucket = []\<rparr>
      | Some fp \<Rightarrow>
     (case scan_bucket fs (output_dir p) of
        None \<Rightarrow> \<lparr>input_bucket = fi, processed_bucket = fp, output_bucket = []\<rparr>
      | Some fo \<Rightarrow> \<lparr>input_bucket = fi, processed_bucket = fp, output_bucket = fo\<rparr>)))"
  by (simp add: scan_and_update_files_def state_after_def update_from_project_def Let_def
      split: option.splits)

lemma dirs_after_scan:
  "input_dir (state_after (scan_and_update_files now fs p)) = input_dir p"
  "processed_dir (state_after (scan_and_update_files now fs p)) = processed_dir p"
  "output_dir (state_after (scan_and_update_files now fs p)) = output_dir p"
  by (simp_all add: scan_and_update_files_def state_after_def update_from_project_def Let_def
      input_dir_def processed_dir_def output_dir_def project_dir_def split: option.splits)

lemma scan_bucket_sorted: "scan_bucket fs d = Some recs \<Longrightarrow> sorted (map name recs)"
  by (auto simp: scan_bucket_def split: if_splits option.splits)

text \<open>
  Claim C8. Scanning again while the file system holds the same entries, in whatever
  order the system lists them, gives the same three record lists as the first scan, and
  each list is sorted by name. (A scan sets the lists from the file system alone; the
  records it found before play no part.)
\<close>

theorem rescan_is_idempotent:
  assumes "mset fs' = mset fs" and "distinct (map fst fs)"
  shows "files (state_after (scan_and_update_files now' fs'
            (state_after (scan_and_update_files now fs p))))
       = files (state_after (scan_and_update_files now fs p)) \<and>
     sorted (map name (input_bucket (files (state_after (scan_and_update_files now fs p))))) \<and>
     sorted (map name (processed_bucket (files (state_after (scan_and_update_files now fs p))))) \<and>
     sorted (map name (output_bucket (files (state_after (scan_and_update_files now fs p)))))"
proof -
  have "files (state_after (scan_and_update_files now' fs'
            (state_after (scan_and_update_files now fs p))))
       = files (state_after (scan_and_update_files now fs p))"
    by (simp add: files_after_scan dirs_after_scan scan_bucket_reorder[OF assms]
        cong: option.case_cong)
  moreover have "sorted (map name (input_bucket (files (state_after (scan_and_update_files now fs p)))))"
    "sorted (map name (processed_bucket (files (state_after (scan_and_update_files now fs p)))))"
    "sorted (map name (output_bucket (files (state_after (scan_and_update_files now fs p)))))"
    by (auto simp: files_after_scan split: option.splits dest: scan_bucket_sorted)
  ultimately show ?thesis by simp
qed

theorem rescan_is_idempotent_witness:
  "mset (demo_dirs @ [(''/w/Demo_abc12345/input/b.xlsx'', File ''b'' 2 3),
                      (''/w/Demo_abc12345/input/a.xlsx'', File ''a'' 2 4)])
     = mset ([(''/w/Demo_abc12345/input/a.xlsx'', File ''a'' 2 4),
              (''/w/Demo_abc12345/input/b.xlsx'', File ''b'' 2 3)] @ demo_dirs) \<and>
   distinct (map fst ([(''/w/Demo_abc12345/input/a.xlsx'', File ''a'' 2 4),
                       (''/w/Demo_abc12345/input/b.xlsx'', File ''b'' 2 3)] @ demo_dirs)) \<and>
   map name (input_bucket (files (state_after (scan_and_update_files 7
      (demo_dirs @ [(''/w/Demo_abc12345/input/b.xlsx'', File ''b'' 2 3),
                    (''/w/Demo_abc12345/input/a.xlsx'', File ''a'' 2 4)])
      (state_after (scan_and_update_files 5
         ([(''/w/Demo_abc12345/input/a.xlsx'', File ''a'' 2 4),
           (''/w/Demo_abc12345/input/b.xlsx'', File ''b'' 2 3)] @ demo_dirs) demo_project))))))
     = [''a.xlsx'', ''b.xlsx'']"
proof -
  have perm: "mset (demo_dirs @ [(''/w/Demo_abc12345/input/b.xlsx'', File ''b'' 2 3),
                      (''/w/Demo_abc12345/input/a.xlsx'', File ''a'' 2 4)])
     = mset ([(''/w/Demo_abc12345/input/a.xlsx'', File ''a'' 2 4),
              (''/w/Demo_abc12345/input/b.xlsx'', File ''b'' 2 3)] @ demo_dirs)"
    by simp
  have dist: "distinct (map fst ([(''/w/Demo_abc12345/input/a.xlsx'', File ''a'' 2 4),
                       (''/w/Demo_abc12345/input/b.xlsx'', File ''b'' 2 3)] @ demo_dirs))"
    by (simp add: demo_dirs_def)
  have first: "map name (input_bucket (files (state_after (scan_and_update_files 5
         ([(''/w/Demo_abc12345/input/a.xlsx'', File ''a'' 2 4),
           (''/w/Demo_abc12345/input/b.xlsx'', File ''b'' 2 3)] @ demo_dirs) demo_project))))
     = [''a.xlsx'', ''b.xlsx'']"
    by code_simp
  from rescan_is_idempotent [OF perm dist, of 7 5 demo_project] first perm dist
  show ?thesis by simp
qed

subsection \<open>Creating files\<close>






























text \<open>
  The names \<open>.\<close> and \<open>..\<close> always exist in an existing bucket directory, so
  \<open>create_file\<close> never takes them: asked for \<open>.\<close>, it writes \<open>._1\<close>.
\<close>

lemma dot_is_never_free:
  "create_file 5 demo_dirs demo_project ''.'' ''output'' ''x'' =
     Some (demo_dirs @ [(''/w/Demo_abc12345/output/._1'', File ''x'' 5 5)],
           demo_project\<lparr>pmodified_date := 5,
              files := \<lparr>input_bucket = [], processed_bucket = [],
                        output_bucket = [\<lparr>path = ''/w/Demo_abc12345/output/._1'', name = ''._1'',
                                          type = ''file'', added_date = 5, modified_date = 5,
                                          size = 1\<rparr>]\<rparr>,
              pcontext := new_context\<lparr>project_name := ''Demo''\<rparr>\<rparr>,
           Some ''/w/Demo_abc12345/output/._1'')"
  by code_simp



end
